theory Spec2Isabelle
  imports Main "HOL-Library.AList"
begin

section \<open>The choice tree of \<^verbatim>\<open>hypothesis/internal/conjecture/datatree.py\<close>\<close>

text \<open>
  The module keeps a compressed trie of the draws made by test runs. Its objects are
  mutable and reached through references: a \<^verbatim>\<open>TreeRecordingObserver\<close> holds a reference
  to one \<^verbatim>\<open>TreeNode\<close> of the tree and mutates it in place. The embedding therefore
  uses an explicit store: a list of nodes in which the address of a node is its
  position, a reference is an address, and allocating a node appends it to the list.
  Python integers are \<open>int\<close>, positions in a list are \<open>nat\<close>.
\<close>

subsection \<open>Data\<close>

text \<open>
  Modelled from the spec: \<^verbatim>\<open>Status\<close> is imported from
  \<^verbatim>\<open>hypothesis.internal.conjecture.data\<close>, which is not part of the sources at hand.
  The spec gives its four members; it is an enumeration, so a member is neither
  \<^verbatim>\<open>None\<close> nor a dictionary and cannot be subscripted.
\<close>

datatype status = OVERRUN | INVALID | VALID | INTERESTING

text \<open>
  The exceptions the module can raise. \<open>Flaky\<close> carries its message. The others are the
  built-in exceptions of Python that the code can run into: a failing \<^verbatim>\<open>assert\<close>, a name
  that is not bound, an index out of range, an item assignment on an object without items.
\<close>

datatype error =
    Flaky string
  | AssertionError
  | NameError string
  | IndexError
  | TypeError

text \<open>
  The attribute \<^verbatim>\<open>transition\<close> of a node is \<^verbatim>\<open>None\<close>, a dictionary from drawn values to
  child nodes, or a \<^verbatim>\<open>Status\<close>. A dictionary keeps its keys in insertion order, so it is an
  association list with distinct keys; \<open>map_of\<close> looks a key up and \<open>AList.update\<close> is
  the item assignment (replace in place, or append a new key at the end).
\<close>

datatype trans = TNone | TDict "(int \<times> nat) list" | TStatus status

text \<open>
  \<^verbatim>\<open>TreeNode\<close>. The attribute \<^verbatim>\<open>values\<close> is called \<open>values_l\<close> here, since \<open>values\<close> is a
  reserved word of Isabelle.
\<close>

record tree_node =
  bits :: "int list"
  values_l :: "int list"
  transition :: trans

text \<open>\<^verbatim>\<open>isinstance(x, dict)\<close> on a transition.\<close>

fun is_dict :: "trans \<Rightarrow> bool" where
  "is_dict (TDict d) = True"
| "is_dict TNone = False"
| "is_dict (TStatus s) = False"

definition TreeNode :: tree_node where
  "TreeNode = \<lparr>bits = [], values_l = [], transition = TNone\<rparr>"

text \<open>
  \<^verbatim>\<open>DataTree\<close>: the capacity, the reference to the root node, and the store of all
  nodes allocated so far.
\<close>

record data_tree =
  cap :: int
  root :: nat
  heap :: "tree_node list"

definition DataTree :: "int \<Rightarrow> data_tree" where
  "DataTree c = \<lparr>cap = c, root = 0, heap = [TreeNode]\<rparr>"

text \<open>
  \<^verbatim>\<open>TreeRecordingObserver\<close>. One observer is active at a time, so the tree it refers to is
  carried inside it and read back from it when the test run is over.
\<close>

record observer =
  tree :: data_tree
  current_node :: nat
  index_in_current_node :: nat

definition set_heap :: "observer \<Rightarrow> tree_node list \<Rightarrow> observer" where
  "set_heap obs h = obs\<lparr>tree := (tree obs)\<lparr>heap := h\<rparr>\<rparr>"

definition inconsistent_generation :: string where
  "inconsistent_generation =
     ''Inconsistent data generation! Data generation behaved differently '' @
     ''between different runs. Is your data generation depending on external '' @
     ''state?''"

subsection \<open>The operations\<close>

text \<open>
  \<^verbatim>\<open>TreeNode.split_at(self, i)\<close>, lines 33 to 44. The child is allocated first (line 34);
  \<^verbatim>\<open>self.values[i]\<close> raises \<^verbatim>\<open>IndexError\<close> when \<open>i\<close> is not a position of \<^verbatim>\<open>values\<close>; the two
  \<^verbatim>\<open>del\<close> statements truncate the lists; the two assertions are checked after the
  truncation and before the transition is overwritten.
\<close>

definition split_at :: "nat \<Rightarrow> nat \<Rightarrow> tree_node list \<Rightarrow> (error + unit) \<times> tree_node list" where
  "split_at self i h =
    (let node = h ! self;
         child = \<lparr>bits = drop (i + 1) (bits node),
                  values_l = drop (i + 1) (values_l node),
                  transition = transition node\<rparr>;
         c = length h;
         h1 = h @ [child]
     in if \<not> i < length (values_l node) then (Inl IndexError, h1)
        else
          let key = values_l node ! i;
              node1 = node\<lparr>values_l := take i (values_l node)\<rparr>;
              node2 = node1\<lparr>bits := take (i + 1) (bits node1)\<rparr>;
              h2 = h1[self := node2]
          in if length (values_l node2) \<noteq> i then (Inl AssertionError, h2)
             else if length (bits node2) \<noteq> i + 1 then (Inl AssertionError, h2)
             else (Inr (), h2[self := node2\<lparr>transition := TDict [(key, c)]\<rparr>]))"

text \<open>\<^verbatim>\<open>DataTree.is_exhausted\<close>, lines 55 to 59: the body is \<^verbatim>\<open>return False\<close>.\<close>

definition is_exhausted :: "data_tree \<Rightarrow> bool" where
  "is_exhausted t = False"

text \<open>\<^verbatim>\<open>DataTree.new_observer\<close> and the constructor of the observer, lines 76 to 94.\<close>

definition new_observer :: "data_tree \<Rightarrow> observer" where
  "new_observer t = \<lparr>tree = t, current_node = root t, index_in_current_node = 0\<rparr>"

text \<open>
  \<^verbatim>\<open>TreeRecordingObserver.draw_bits\<close>, lines 96 to 129. The index is advanced before
  anything else, so it is advanced also when the call raises; the observer returned
  next to an error is the state at the moment of the \<^verbatim>\<open>raise\<close>.
  Subscripting a \<^verbatim>\<open>Status\<close> raises \<^verbatim>\<open>TypeError\<close>, which line 123 catches. The case
  distinctions on the transition list all three forms; the form \<open>TNone\<close> in the last one
  is there for completeness only, since the branch before it has taken that case.
\<close>

definition draw_bits :: "int \<Rightarrow> bool \<Rightarrow> int \<Rightarrow> observer \<Rightarrow> (error + unit) \<times> observer" where
  "draw_bits n_bits forced value obs =
    (let i = index_in_current_node obs;
         obs1 = obs\<lparr>index_in_current_node := i + 1\<rparr>;
         a = current_node obs1;
         node = heap (tree obs1) ! a
     in if i < length (bits node) \<and> n_bits \<noteq> bits node ! i
          then (Inl (Flaky inconsistent_generation), obs1)
        else if \<not> i < length (bits node) \<and> transition node \<noteq> TNone
          then (Inl AssertionError, obs1)
        else
          let node1 = (if i < length (bits node) then node
                       else node\<lparr>bits := bits node @ [n_bits]\<rparr>);
              obs2 = set_heap obs1 ((heap (tree obs1))[a := node1])
          in if \<not> i < length (bits node1) then (Inl AssertionError, obs2)
             else if i < length (values_l node1) then
               (if value \<noteq> values_l node1 ! i then
                  (case split_at a i (heap (tree obs2)) of
                     (Inl e, h3) \<Rightarrow> (Inl e, set_heap obs2 h3)
                   | (Inr u, h3) \<Rightarrow>
                       let node3 = h3 ! a in
                       if i \<noteq> length (values_l node3) then (Inl AssertionError, set_heap obs2 h3)
                       else
                         let new_node = length h3;
                             h4 = h3 @ [TreeNode]
                         in (case transition node3 of
                               TDict d \<Rightarrow>
                                 (Inr (),
                                  (set_heap obs2
                                     (h4[a := node3\<lparr>transition := TDict (AList.update value new_node d)\<rparr>]))
                                   \<lparr>current_node := new_node, index_in_current_node := 0\<rparr>)
                             | TNone \<Rightarrow> (Inl TypeError, set_heap obs2 h4)
                             | TStatus s \<Rightarrow> (Inl TypeError, set_heap obs2 h4)))
                else (Inr (), obs2))
             else if transition node1 = TNone then
               (Inr (), set_heap obs2 ((heap (tree obs2))[a := node1\<lparr>values_l := values_l node1 @ [value]\<rparr>]))
             else
               (case transition node1 of
                  TDict d \<Rightarrow>
                    (case map_of d value of
                       Some c \<Rightarrow> (Inr (), obs2\<lparr>current_node := c, index_in_current_node := 0\<rparr>)
                     | None \<Rightarrow>
                         let new_node = length (heap (tree obs2));
                             h3 = heap (tree obs2) @ [TreeNode]
                         in (Inr (),
                             (set_heap obs2
                                (h3[a := node1\<lparr>transition := TDict (AList.update value new_node d)\<rparr>]))
                              \<lparr>current_node := new_node, index_in_current_node := 0\<rparr>))
                | TStatus s \<Rightarrow>
                    if s = OVERRUN then (Inl AssertionError, obs2)
                    else (Inl (Flaky inconsistent_generation), obs2)
                | TNone \<Rightarrow> (Inl TypeError, obs2)))"

text \<open>
  \<^verbatim>\<open>TreeRecordingObserver.conclude_test\<close>, lines 138 to 156. In the branch of line 150 the
  argument of \<^verbatim>\<open>Flaky\<close> is evaluated first, and it reads the name \<^verbatim>\<open>existing\<close>, which is bound
  nowhere in the module: evaluating it raises \<^verbatim>\<open>NameError\<close>, and the \<^verbatim>\<open>Flaky\<close> of line 151
  is never built. The argument \<^verbatim>\<open>interesting_origin\<close> is not read.
\<close>

definition conclude_test :: "status \<Rightarrow> string option \<Rightarrow> observer \<Rightarrow> (error + unit) \<times> observer" where
  "conclude_test status interesting_origin obs =
    (if status = OVERRUN then (Inr (), obs)
     else
       let i = index_in_current_node obs;
           a = current_node obs;
           node = heap (tree obs) ! a
       in if i < length (values_l node) \<or> is_dict (transition node)
            then (Inl (Flaky inconsistent_generation), obs)
          else if transition node \<noteq> TNone then
            (if transition node \<noteq> TStatus status then (Inl (NameError ''existing''), obs)
             else (Inr (), obs))
          else (Inr (), set_heap obs ((heap (tree obs))[a := node\<lparr>transition := TStatus status\<rparr>])))"

subsection \<open>Test runs\<close>

text \<open>
  A draw event is the triple of arguments of \<^verbatim>\<open>draw_bits\<close>. A test run feeds its draws to the
  observer in order and then concludes; an exception ends the run where it is raised.
\<close>

type_synonym draw = "int \<times> bool \<times> int"

fun run_draws :: "draw list \<Rightarrow> observer \<Rightarrow> (error + unit) \<times> observer" where
  "run_draws [] obs = (Inr (), obs)"
| "run_draws ((n_bits, forced, value) # ds) obs =
     (case draw_bits n_bits forced value obs of
        (Inl e, obs') \<Rightarrow> (Inl e, obs')
      | (Inr u, obs') \<Rightarrow> run_draws ds obs')"

definition run_test :: "draw list \<Rightarrow> status \<Rightarrow> string option \<Rightarrow> data_tree \<Rightarrow> (error + unit) \<times> observer" where
  "run_test ds status interesting_origin t =
     (case run_draws ds (new_observer t) of
        (Inl e, obs') \<Rightarrow> (Inl e, obs')
      | (Inr u, obs') \<Rightarrow> conclude_test status interesting_origin obs')"

text \<open>
  The states a program can reach: a tree is created, observers are taken from the tree of
  the previous one, and \<^verbatim>\<open>draw_bits\<close> and \<^verbatim>\<open>conclude_test\<close> are called in any order and with any
  arguments, also on an observer that has raised before.
\<close>

inductive reachable :: "observer \<Rightarrow> bool" where
  reachable_init: "reachable (new_observer (DataTree c))"
| reachable_new: "reachable obs \<Longrightarrow> reachable (new_observer (tree obs))"
| reachable_draw: "reachable obs \<Longrightarrow> reachable (snd (draw_bits n_bits forced value obs))"
| reachable_conclude: "reachable obs \<Longrightarrow> reachable (snd (conclude_test status origin obs))"


subsection \<open>Well-formed stores\<close>

text \<open>
  What the operations keep true of every node: a node without transition or with a
  \<^verbatim>\<open>Status\<close> has as many values as bit widths, a node with a dictionary has one bit width
  more (the width of the draw the dictionary branches on), and no recorded status is
  \<open>OVERRUN\<close>.
\<close>

definition node_ok :: "tree_node \<Rightarrow> bool" where
  "node_ok n =
     (case transition n of
        TNone \<Rightarrow> length (bits n) = length (values_l n)
      | TDict d \<Rightarrow> length (bits n) = length (values_l n) + 1
      | TStatus s \<Rightarrow> length (bits n) = length (values_l n) \<and> s \<noteq> OVERRUN)"

text \<open>Every child reference of a node is an address below \<open>l\<close>.\<close>

definition refs_below :: "nat \<Rightarrow> tree_node \<Rightarrow> bool" where
  "refs_below l n = (\<forall>d k c. transition n = TDict d \<longrightarrow> map_of d k = Some c \<longrightarrow> c < l)"

text \<open>Every node is well formed and every child reference is the address of a node.\<close>

definition heap_ok :: "tree_node list \<Rightarrow> bool" where
  "heap_ok h = (\<forall>a < length h. node_ok (h ! a) \<and> refs_below (length h) (h ! a))"

text \<open>
  The observer refers to a node of a well-formed store whose root is the first node, and
  on a node without transition its index is at most the length of the run.
\<close>

definition obs_ok :: "observer \<Rightarrow> bool" where
  "obs_ok obs =
     (root (tree obs) = 0 \<and>
      current_node obs < length (heap (tree obs)) \<and>
      heap_ok (heap (tree obs)) \<and>
      (transition (heap (tree obs) ! current_node obs) = TNone \<longrightarrow>
         index_in_current_node obs \<le> length (bits (heap (tree obs) ! current_node obs))))"

subsection \<open>The draws that lead to a node\<close>

text \<open>
  What a draw leaves in the tree: its bit width and its value (the flag \<^verbatim>\<open>forced\<close> is not
  recorded).
\<close>

definition drawn :: "draw \<Rightarrow> int \<times> int" where
  "drawn d = (fst d, snd (snd d))"

text \<open>The draws recorded in the run of a node, and the draws of the run followed by the
  draw that branches to the child under key \<open>k\<close>.\<close>

definition run_of :: "tree_node \<Rightarrow> (int \<times> int) list" where
  "run_of n = zip (bits n) (values_l n)"

definition edge_of :: "tree_node \<Rightarrow> int \<Rightarrow> (int \<times> int) list" where
  "edge_of n k = run_of n @ [(bits n ! length (values_l n), k)]"

text \<open>
  The store is a tree below the root when every node can be given the sequence of draws
  that leads from the root to its first position: the empty sequence for the root, for
  a child the sequence of its parent followed by the run of the parent and the branching
  draw; and every node but the root is the child of a node.
\<close>

definition tree_inv :: "(nat \<Rightarrow> (int \<times> int) list) \<Rightarrow> tree_node list \<Rightarrow> bool" where
  "tree_inv tr h =
     (tr 0 = [] \<and>
      (\<forall>a < length h. \<forall>d k c. transition (h ! a) = TDict d \<longrightarrow> map_of d k = Some c \<longrightarrow>
          tr c = tr a @ edge_of (h ! a) k) \<and>
      (\<forall>c < length h. c \<noteq> 0 \<longrightarrow>
          (\<exists>a < length h. \<exists>d k. transition (h ! a) = TDict d \<and> map_of d k = Some c)))"

text \<open>The draws that lead from the root to the position of the observer.\<close>

definition cursor_trace :: "(nat \<Rightarrow> (int \<times> int) list) \<Rightarrow> observer \<Rightarrow> (int \<times> int) list" where
  "cursor_trace tr obs =
     tr (current_node obs) @
     take (index_in_current_node obs) (run_of (heap (tree obs) ! current_node obs))"

text \<open>The observer stands inside the run of its node or at the end of it.\<close>

definition in_run :: "observer \<Rightarrow> bool" where
  "in_run obs =
     (index_in_current_node obs \<le> length (values_l (heap (tree obs) ! current_node obs)))"

text \<open>
  A sequence of draws with a status is recorded in a store when the draws lead from the
  root to the end of the run of a node whose transition is that status.
\<close>

definition recorded_at ::
  "(nat \<Rightarrow> (int \<times> int) list) \<Rightarrow> tree_node list \<Rightarrow> (int \<times> int) list \<Rightarrow> status \<Rightarrow> bool" where
  "recorded_at tr h xs s =
     (\<exists>a < length h. transition (h ! a) = TStatus s \<and> xs = tr a @ run_of (h ! a))"

definition recorded :: "tree_node list \<Rightarrow> (int \<times> int) list \<Rightarrow> status \<Rightarrow> bool" where
  "recorded h xs s = (\<exists>tr. tree_inv tr h \<and> recorded_at tr h xs s)"

text \<open>
  What can happen to a tree after a state: further calls on the observer, and new
  observers on the same tree, in any number and order.
\<close>

inductive evolves :: "observer \<Rightarrow> observer \<Rightarrow> bool" where
  evolves_refl: "evolves obs obs"
| evolves_new: "evolves obs obs' \<Longrightarrow> evolves obs (new_observer (tree obs'))"
| evolves_draw: "evolves obs obs' \<Longrightarrow> evolves obs (snd (draw_bits n_bits forced value obs'))"
| evolves_conclude: "evolves obs obs' \<Longrightarrow> evolves obs (snd (conclude_test status origin obs'))"

subsection \<open>An example\<close>

text \<open>
  The first example of the spec: a run draws 3 on 8 bits and is concluded as \<open>VALID\<close>,
  then a run on the same tree draws 5 on 8 bits and is concluded as \<open>VALID\<close>.
\<close>

definition split_example :: observer where
  "split_example =
     snd (run_test [(8, False, 5)] VALID None
       (tree (snd (run_test [(8, False, 3)] VALID None (DataTree 8)))))"

text \<open>
  A longer history: a run draws 3 on 8 bits and 1 on 4 bits and is concluded as \<open>VALID\<close>.
  Later a run on the same tree draws 5 on 8 bits, which splits the root, and is concluded
  as \<open>INVALID\<close>.
\<close>

definition recorded_example :: observer where
  "recorded_example = snd (run_test [(8, False, 3), (4, False, 1)] VALID None (DataTree 8))"

definition later_example :: observer where
  "later_example = snd (run_test [(8, False, 5)] INVALID None (tree recorded_example))"

section \<open>Properties\<close>

subsection \<open>Auxiliary facts\<close>

lemma tree_node_updates:
  "n\<lparr>values_l := v, bits := b, transition := t\<rparr> = \<lparr>bits = b, values_l = v, transition = t\<rparr>"
  "n\<lparr>values_l := v, transition := t\<rparr> = \<lparr>bits = bits n, values_l = v, transition = t\<rparr>"
  by (cases n, simp)+

lemma split_at_Inr:
  assumes "self < length h"
    and "i < length (values_l (h ! self))"
    and "i < length (bits (h ! self))"
  shows "split_at self i h =
    (Inr (),
     h[self := \<lparr>bits = take (i + 1) (bits (h ! self)),
                values_l = take i (values_l (h ! self)),
                transition = TDict [(values_l (h ! self) ! i, length h)]\<rparr>]
     @ [\<lparr>bits = drop (i + 1) (bits (h ! self)),
         values_l = drop (i + 1) (values_l (h ! self)),
         transition = transition (h ! self)\<rparr>])"
  using assms by (simp add: split_at_def Let_def list_update_append tree_node_updates)

subsection \<open>The paths through \<^verbatim>\<open>draw_bits\<close>\<close>

lemma draw_bits_mismatch:
  assumes "index_in_current_node obs < length (bits (heap (tree obs) ! current_node obs))"
    and "n_bits \<noteq> bits (heap (tree obs) ! current_node obs) ! index_in_current_node obs"
  shows "draw_bits n_bits forced value obs =
    (Inl (Flaky inconsistent_generation),
     obs\<lparr>index_in_current_node := index_in_current_node obs + 1\<rparr>)"
  using assms by (simp add: draw_bits_def Let_def)

lemma draw_bits_past_bits:
  assumes "\<not> index_in_current_node obs < length (bits (heap (tree obs) ! current_node obs))"
    and "transition (heap (tree obs) ! current_node obs) \<noteq> TNone"
  shows "draw_bits n_bits forced value obs =
    (Inl AssertionError, obs\<lparr>index_in_current_node := index_in_current_node obs + 1\<rparr>)"
  using assms by (simp add: draw_bits_def Let_def)

lemma draw_bits_same:
  assumes "index_in_current_node obs < length (bits (heap (tree obs) ! current_node obs))"
    and "n_bits = bits (heap (tree obs) ! current_node obs) ! index_in_current_node obs"
    and "index_in_current_node obs < length (values_l (heap (tree obs) ! current_node obs))"
    and "value = values_l (heap (tree obs) ! current_node obs) ! index_in_current_node obs"
  shows "draw_bits n_bits forced value obs =
    (Inr (), obs\<lparr>index_in_current_node := index_in_current_node obs + 1\<rparr>)"
  using assms by (simp add: draw_bits_def Let_def set_heap_def)

lemma draw_bits_split:
  assumes "current_node obs < length (heap (tree obs))"
    and "index_in_current_node obs < length (bits (heap (tree obs) ! current_node obs))"
    and "n_bits = bits (heap (tree obs) ! current_node obs) ! index_in_current_node obs"
    and "index_in_current_node obs < length (values_l (heap (tree obs) ! current_node obs))"
    and "value \<noteq> values_l (heap (tree obs) ! current_node obs) ! index_in_current_node obs"
  shows "draw_bits n_bits forced value obs =
    (Inr (),
     obs\<lparr>tree := (tree obs)\<lparr>heap :=
            (heap (tree obs))[current_node obs :=
               \<lparr>bits = take (index_in_current_node obs + 1) (bits (heap (tree obs) ! current_node obs)),
                values_l = take (index_in_current_node obs) (values_l (heap (tree obs) ! current_node obs)),
                transition = TDict [(values_l (heap (tree obs) ! current_node obs) ! index_in_current_node obs,
                                     length (heap (tree obs))),
                                    (value, length (heap (tree obs)) + 1)]\<rparr>]
            @ [\<lparr>bits = drop (index_in_current_node obs + 1) (bits (heap (tree obs) ! current_node obs)),
                values_l = drop (index_in_current_node obs + 1) (values_l (heap (tree obs) ! current_node obs)),
                transition = transition (heap (tree obs) ! current_node obs)\<rparr>,
               TreeNode]\<rparr>,
         current_node := length (heap (tree obs)) + 1,
         index_in_current_node := 0\<rparr>)"
  using assms
  by (simp add: draw_bits_def split_at_Inr Let_def set_heap_def list_update_append nth_append tree_node_updates)

lemma draw_bits_append:
  assumes "current_node obs < length (heap (tree obs))"
    and "index_in_current_node obs = length (bits (heap (tree obs) ! current_node obs))"
    and "length (values_l (heap (tree obs) ! current_node obs)) \<le> length (bits (heap (tree obs) ! current_node obs))"
    and "transition (heap (tree obs) ! current_node obs) = TNone"
  shows "draw_bits n_bits forced value obs =
    (Inr (),
     obs\<lparr>tree := (tree obs)\<lparr>heap :=
            (heap (tree obs))[current_node obs :=
               (heap (tree obs) ! current_node obs)
                 \<lparr>bits := bits (heap (tree obs) ! current_node obs) @ [n_bits],
                  values_l := values_l (heap (tree obs) ! current_node obs) @ [value]\<rparr>]\<rparr>,
         index_in_current_node := index_in_current_node obs + 1\<rparr>)"
  using assms
  by (simp add: draw_bits_def Let_def set_heap_def)

lemma draw_bits_descend:
  assumes "index_in_current_node obs < length (bits (heap (tree obs) ! current_node obs))"
    and "n_bits = bits (heap (tree obs) ! current_node obs) ! index_in_current_node obs"
    and "\<not> index_in_current_node obs < length (values_l (heap (tree obs) ! current_node obs))"
    and "transition (heap (tree obs) ! current_node obs) = TDict d"
    and "map_of d value = Some c"
  shows "draw_bits n_bits forced value obs =
    (Inr (), obs\<lparr>current_node := c, index_in_current_node := 0\<rparr>)"
  using assms
  by (simp add: draw_bits_def Let_def set_heap_def)

lemma draw_bits_insert:
  assumes "current_node obs < length (heap (tree obs))"
    and "index_in_current_node obs < length (bits (heap (tree obs) ! current_node obs))"
    and "n_bits = bits (heap (tree obs) ! current_node obs) ! index_in_current_node obs"
    and "\<not> index_in_current_node obs < length (values_l (heap (tree obs) ! current_node obs))"
    and "transition (heap (tree obs) ! current_node obs) = TDict d"
    and "map_of d value = None"
  shows "draw_bits n_bits forced value obs =
    (Inr (),
     obs\<lparr>tree := (tree obs)\<lparr>heap :=
            (heap (tree obs))[current_node obs :=
               (heap (tree obs) ! current_node obs)
                 \<lparr>transition := TDict (AList.update value (length (heap (tree obs))) d)\<rparr>]
            @ [TreeNode]\<rparr>,
         current_node := length (heap (tree obs)),
         index_in_current_node := 0\<rparr>)"
  using assms
  by (simp add: draw_bits_def Let_def set_heap_def list_update_append)

lemma draw_bits_status:
  assumes "index_in_current_node obs < length (bits (heap (tree obs) ! current_node obs))"
    and "n_bits = bits (heap (tree obs) ! current_node obs) ! index_in_current_node obs"
    and "\<not> index_in_current_node obs < length (values_l (heap (tree obs) ! current_node obs))"
    and "transition (heap (tree obs) ! current_node obs) = TStatus s"
  shows "draw_bits n_bits forced value obs =
    (if s = OVERRUN then Inl AssertionError else Inl (Flaky inconsistent_generation),
     obs\<lparr>index_in_current_node := index_in_current_node obs + 1\<rparr>)"
  using assms
  by (simp add: draw_bits_def Let_def set_heap_def)

subsection \<open>Well-formedness is kept\<close>

lemma refs_below_mono: "refs_below l n \<Longrightarrow> l \<le> l' \<Longrightarrow> refs_below l' n"
  by (fastforce simp: refs_below_def)

lemma heap_ok_grow:
  assumes "heap_ok h" and "a < length h"
    and "node_ok n" and "refs_below (length h + length ns) n"
    and "\<forall>m \<in> set ns. node_ok m \<and> refs_below (length h + length ns) m"
  shows "heap_ok (h[a := n] @ ns)"
  unfolding heap_ok_def
proof (intro allI impI)
  fix j assume j: "j < length (h[a := n] @ ns)"
  show "node_ok ((h[a := n] @ ns) ! j) \<and> refs_below (length (h[a := n] @ ns)) ((h[a := n] @ ns) ! j)"
  proof (cases "j < length h")
    case True
    show ?thesis
    proof (cases "j = a")
      case True
      with assms show ?thesis by (simp add: nth_append)
    next
      case False
      from assms(1) \<open>j < length h\<close> have "node_ok (h ! j)" "refs_below (length h) (h ! j)"
        by (simp_all add: heap_ok_def)
      with False \<open>j < length h\<close> show ?thesis
        by (simp add: nth_append refs_below_mono)
    qed
  next
    case False
    with j have "(h[a := n] @ ns) ! j = ns ! (j - length h)" "j - length h < length ns"
      by (simp_all add: nth_append)
    with assms(5) show ?thesis by (metis length_append length_list_update nth_mem)
  qed
qed

lemma heap_ok_update:
  assumes "heap_ok h" and "a < length h" and "node_ok n" and "refs_below (length h) n"
  shows "heap_ok (h[a := n])"
  using heap_ok_grow [of h a n "[]"] assms by simp

lemma node_ok_TreeNode: "node_ok TreeNode" "refs_below l TreeNode"
  by (simp_all add: node_ok_def refs_below_def TreeNode_def)

lemma obs_ok_init: "obs_ok (new_observer (DataTree c))"
  by (simp add: obs_ok_def new_observer_def DataTree_def heap_ok_def node_ok_TreeNode)

lemma obs_ok_new: "obs_ok obs \<Longrightarrow> obs_ok (new_observer (tree obs))"
  by (auto simp: obs_ok_def new_observer_def)

lemma obs_ok_index:
  assumes "obs_ok obs" and "transition (heap (tree obs) ! current_node obs) \<noteq> TNone \<or> j \<le> length (bits (heap (tree obs) ! current_node obs))"
  shows "obs_ok (obs\<lparr>index_in_current_node := j\<rparr>)"
  using assms by (auto simp: obs_ok_def)


lemma obs_ok_nodeD:
  assumes "obs_ok obs"
  shows "current_node obs < length (heap (tree obs))"
    and "node_ok (heap (tree obs) ! current_node obs)"
    and "refs_below (length (heap (tree obs))) (heap (tree obs) ! current_node obs)"
    and "heap_ok (heap (tree obs))"
  using assms by (auto simp: obs_ok_def heap_ok_def)

text \<open>On a well-formed observer a call of \<^verbatim>\<open>draw_bits\<close> takes one of seven paths.\<close>

lemma draw_bits_cases [consumes 1, case_names mismatch past_bits same split append descend insert]:
  assumes ok: "obs_ok obs"
  obtains
    (mismatch) "index_in_current_node obs < length (bits (heap (tree obs) ! current_node obs))"
      "n_bits \<noteq> bits (heap (tree obs) ! current_node obs) ! index_in_current_node obs"
  | (past_bits) "\<not> index_in_current_node obs < length (bits (heap (tree obs) ! current_node obs))"
      "transition (heap (tree obs) ! current_node obs) \<noteq> TNone"
  | (same) "index_in_current_node obs < length (bits (heap (tree obs) ! current_node obs))"
      "n_bits = bits (heap (tree obs) ! current_node obs) ! index_in_current_node obs"
      "index_in_current_node obs < length (values_l (heap (tree obs) ! current_node obs))"
      "val = values_l (heap (tree obs) ! current_node obs) ! index_in_current_node obs"
  | (split) "index_in_current_node obs < length (bits (heap (tree obs) ! current_node obs))"
      "n_bits = bits (heap (tree obs) ! current_node obs) ! index_in_current_node obs"
      "index_in_current_node obs < length (values_l (heap (tree obs) ! current_node obs))"
      "val \<noteq> values_l (heap (tree obs) ! current_node obs) ! index_in_current_node obs"
  | (append) "index_in_current_node obs = length (bits (heap (tree obs) ! current_node obs))"
      "length (values_l (heap (tree obs) ! current_node obs)) = length (bits (heap (tree obs) ! current_node obs))"
      "transition (heap (tree obs) ! current_node obs) = TNone"
  | (descend) d c where "index_in_current_node obs < length (bits (heap (tree obs) ! current_node obs))"
      "n_bits = bits (heap (tree obs) ! current_node obs) ! index_in_current_node obs"
      "index_in_current_node obs = length (values_l (heap (tree obs) ! current_node obs))"
      "transition (heap (tree obs) ! current_node obs) = TDict d"
      "map_of d val = Some c"
  | (insert) d where "index_in_current_node obs < length (bits (heap (tree obs) ! current_node obs))"
      "n_bits = bits (heap (tree obs) ! current_node obs) ! index_in_current_node obs"
      "index_in_current_node obs = length (values_l (heap (tree obs) ! current_node obs))"
      "transition (heap (tree obs) ! current_node obs) = TDict d"
      "map_of d val = None"
proof -
  let ?n = "heap (tree obs) ! current_node obs"
  let ?i = "index_in_current_node obs"
  have nok: "node_ok ?n" using ok by (rule obs_ok_nodeD)
  have live: "transition ?n = TNone \<Longrightarrow> ?i \<le> length (bits ?n)"
    using ok by (simp add: obs_ok_def)
  show thesis
  proof (cases "?i < length (bits ?n)")
    case inb: True
    show ?thesis
    proof (cases "n_bits = bits ?n ! ?i")
      case False with inb show ?thesis by (rule mismatch)
    next
      case nb: True
      show ?thesis
      proof (cases "?i < length (values_l ?n)")
        case True
        with inb nb show ?thesis by (cases "val = values_l ?n ! ?i") (auto intro: same split)
      next
        case False
        with inb nok obtain d where d: "transition ?n = TDict d" and len: "?i = length (values_l ?n)"
          by (cases "transition ?n") (auto simp: node_ok_def)
        show ?thesis
          using inb nb len d by (cases "map_of d val") (auto intro: descend insert)
      qed
    qed
  next
    case False
    show ?thesis
    proof (cases "transition ?n = TNone")
      case True
      with False live nok show ?thesis by (intro append) (auto simp: node_ok_def)
    next
      case False
      with \<open>\<not> ?i < length (bits ?n)\<close> show ?thesis by (rule past_bits)
    qed
  qed
qed

lemma obs_ok_draw_bits:
  assumes ok: "obs_ok obs"
  shows "obs_ok (snd (draw_bits n_bits forced value obs))"
proof -
  let ?h = "heap (tree obs)"
  let ?a = "current_node obs"
  let ?n = "?h ! ?a"
  let ?i = "index_in_current_node obs"
  note D = obs_ok_nodeD [OF ok]
  from ok show ?thesis
  proof (cases rule: draw_bits_cases [where n_bits = n_bits and val = "value"])
    case mismatch
    then show ?thesis using ok by (simp add: draw_bits_mismatch obs_ok_index)
  next
    case past_bits
    then show ?thesis using ok by (simp add: draw_bits_past_bits obs_ok_index)
  next
    case same
    then show ?thesis using ok by (simp add: draw_bits_same obs_ok_index)
  next
    case split
    have "heap_ok (?h[?a := \<lparr>bits = take (?i + 1) (bits ?n), values_l = take ?i (values_l ?n),
              transition = TDict [(values_l ?n ! ?i, length ?h), (value, length ?h + 1)]\<rparr>]
            @ [\<lparr>bits = drop (?i + 1) (bits ?n), values_l = drop (?i + 1) (values_l ?n),
                transition = transition ?n\<rparr>, TreeNode])"
    proof (rule heap_ok_grow [OF D(4) D(1)])
      show "node_ok \<lparr>bits = take (?i + 1) (bits ?n), values_l = take ?i (values_l ?n),
              transition = TDict [(values_l ?n ! ?i, length ?h), (value, length ?h + 1)]\<rparr>"
        using split by (simp add: node_ok_def)
      show "refs_below (length ?h + length [\<lparr>bits = drop (?i + 1) (bits ?n), values_l = drop (?i + 1) (values_l ?n),
                transition = transition ?n\<rparr>, TreeNode])
              \<lparr>bits = take (?i + 1) (bits ?n), values_l = take ?i (values_l ?n),
              transition = TDict [(values_l ?n ! ?i, length ?h), (value, length ?h + 1)]\<rparr>"
        by (auto simp: refs_below_def split: if_splits)
      have "node_ok \<lparr>bits = drop (?i + 1) (bits ?n), values_l = drop (?i + 1) (values_l ?n),
                transition = transition ?n\<rparr>"
        using D(2) split by (auto simp: node_ok_def split: trans.splits)
      moreover have "refs_below (length ?h + 2) \<lparr>bits = drop (?i + 1) (bits ?n), values_l = drop (?i + 1) (values_l ?n),
                transition = transition ?n\<rparr>"
        using D(3) by (fastforce simp: refs_below_def)
      ultimately show "\<forall>m\<in>set [\<lparr>bits = drop (?i + 1) (bits ?n), values_l = drop (?i + 1) (values_l ?n),
                transition = transition ?n\<rparr>, TreeNode].
          node_ok m \<and> refs_below (length ?h + length [\<lparr>bits = drop (?i + 1) (bits ?n), values_l = drop (?i + 1) (values_l ?n),
                transition = transition ?n\<rparr>, TreeNode]) m"
        by (simp add: node_ok_TreeNode)
    qed
    then show ?thesis using split ok D(1)
      by (simp add: draw_bits_split obs_ok_def nth_append TreeNode_def)
  next
    case append
    have "heap_ok (?h[?a := ?n\<lparr>bits := bits ?n @ [n_bits], values_l := values_l ?n @ [value]\<rparr>])"
      using D append by (intro heap_ok_update) (auto simp: node_ok_def refs_below_def)
    then show ?thesis using append ok D(1)
      by (simp add: draw_bits_append obs_ok_def)
  next
    case (descend d c)
    then have "c < length ?h" using D(3) by (auto simp: refs_below_def)
    then show ?thesis using descend ok
      by (simp add: draw_bits_descend [where d = d and c = c] obs_ok_def)
  next
    case (insert d)
    have "heap_ok (?h[?a := ?n\<lparr>transition := TDict (AList.update value (length ?h) d)\<rparr>] @ [TreeNode])"
    proof (rule heap_ok_grow [OF D(4) D(1)])
      show "node_ok (?n\<lparr>transition := TDict (AList.update value (length ?h) d)\<rparr>)"
        using D(2) insert by (simp add: node_ok_def)
      show "refs_below (length ?h + length [TreeNode]) (?n\<lparr>transition := TDict (AList.update value (length ?h) d)\<rparr>)"
        using D(3) insert by (fastforce simp: refs_below_def update_conv' split: if_splits)
      show "\<forall>m\<in>set [TreeNode]. node_ok m \<and> refs_below (length ?h + length [TreeNode]) m"
        by (simp add: node_ok_TreeNode)
    qed
    then show ?thesis using insert ok D(1)
      by (simp add: draw_bits_insert [where d = d] obs_ok_def nth_append TreeNode_def)
  qed
qed

lemma obs_ok_conclude_test:
  assumes ok: "obs_ok obs"
  shows "obs_ok (snd (conclude_test status origin obs))"
proof (cases "status \<noteq> OVERRUN \<and> \<not> index_in_current_node obs < length (values_l (heap (tree obs) ! current_node obs))
    \<and> transition (heap (tree obs) ! current_node obs) = TNone")
  case True
  note D = obs_ok_nodeD [OF ok]
  have "heap_ok ((heap (tree obs))[current_node obs := (heap (tree obs) ! current_node obs)\<lparr>transition := TStatus status\<rparr>])"
    using D True by (intro heap_ok_update) (auto simp: node_ok_def refs_below_def)
  then show ?thesis using True ok D(1)
    by (simp add: conclude_test_def Let_def set_heap_def obs_ok_def)
next
  case False
  then show ?thesis using ok
    by (auto simp: conclude_test_def Let_def set_heap_def)
qed

lemma reachable_obs_ok: "reachable obs \<Longrightarrow> obs_ok obs"
  by (induction rule: reachable.induct)
    (simp_all add: obs_ok_init obs_ok_new obs_ok_draw_bits obs_ok_conclude_test)

lemma reachable_run_draws: "reachable obs \<Longrightarrow> reachable (snd (run_draws ds obs))"
proof (induction ds arbitrary: obs)
  case Nil
  then show ?case by simp
next
  case (Cons d ds)
  obtain n f v where d: "d = (n, f, v)" by (cases d)
  obtain r obs' where step: "draw_bits n f v obs = (r, obs')" by (cases "draw_bits n f v obs")
  from reachable_draw [OF Cons.prems, of n f v] step have "reachable obs'" by simp
  with Cons.IH [of obs'] step d show ?case by (cases r) simp_all
qed

lemma reachable_run_test:
  assumes "reachable (new_observer t)"
  shows "reachable (snd (run_test ds status origin t))"
proof -
  obtain r obs' where run: "run_draws ds (new_observer t) = (r, obs')"
    by (cases "run_draws ds (new_observer t)")
  from reachable_run_draws [OF assms, of ds] run have "reachable obs'" by simp
  from reachable_conclude [OF this, of status origin] run show ?thesis
    by (cases r) (simp_all add: run_test_def \<open>reachable obs'\<close>)
qed

subsection \<open>Splitting a node\<close>

text \<open>
  Claim C3. On a node that has at least as many bit widths as values, and for a position
  \<open>i\<close> of its values, \<^verbatim>\<open>split_at(i)\<close> raises nothing and allocates exactly one node, the
  child, at the next free address. The child has the bit widths and the values after
  position \<open>i\<close> and the transition of the node as it was. The node keeps the bit widths up
  to and including position \<open>i\<close> and the values before position \<open>i\<close>, and its transition
  becomes the dictionary with the one entry from the old value at \<open>i\<close> to the child. No
  other node changes.
\<close>

theorem split_at_correct:
  assumes "self < length h"
    and "i < length (values_l (h ! self))"
    and "length (values_l (h ! self)) \<le> length (bits (h ! self))"
  shows "split_at self i h =
    (Inr (),
     h[self := \<lparr>bits = take (i + 1) (bits (h ! self)),
                values_l = take i (values_l (h ! self)),
                transition = TDict [(values_l (h ! self) ! i, length h)]\<rparr>]
     @ [\<lparr>bits = drop (i + 1) (bits (h ! self)),
         values_l = drop (i + 1) (values_l (h ! self)),
         transition = transition (h ! self)\<rparr>])"
  using assms by (intro split_at_Inr) simp_all

theorem split_at_correct_witness:
  "(0::nat) < length [\<lparr>bits = [8, 4, 2], values_l = [3, 1, 0], transition = TStatus VALID\<rparr>]
   \<and> (1::nat) < length (values_l ([\<lparr>bits = [8, 4, 2], values_l = [3, 1, 0], transition = TStatus VALID\<rparr>] ! 0))
   \<and> split_at 0 1 [\<lparr>bits = [8, 4, 2], values_l = [3, 1, 0], transition = TStatus VALID\<rparr>] =
       (Inr (),
        [\<lparr>bits = [8, 4], values_l = [3], transition = TDict [(1, 1)]\<rparr>,
         \<lparr>bits = [2], values_l = [0], transition = TStatus VALID\<rparr>])"
  using split_at_correct [of 0 "[\<lparr>bits = [8, 4, 2], values_l = [3, 1, 0], transition = TStatus VALID\<rparr>]" 1]
  by simp

subsection \<open>Drawing a value that differs from the recorded one\<close>

text \<open>
  Claim C4. When the observer stands on a node at a position \<open>i\<close> that has a recorded
  value and a recorded bit width, the bit width drawn is the recorded one and the value
  drawn differs from the recorded one, \<^verbatim>\<open>draw_bits\<close> raises nothing and splits that node
  once: two nodes are allocated, the node keeps the values before \<open>i\<close> and becomes a
  dictionary with exactly two entries. The recorded value leads to the first new node,
  which holds the draws recorded after position \<open>i\<close> and the old transition; the value
  drawn leads to the second new node, which is empty. The observer moves to the second
  new node at index 0.
\<close>

theorem draw_bits_diverge:
  assumes "current_node obs < length (heap (tree obs))"
    and "node = heap (tree obs) ! current_node obs"
    and "i = index_in_current_node obs"
    and "i < length (values_l node)"
    and "i < length (bits node)"
    and "bits node ! i = n_bits"
    and "value \<noteq> values_l node ! i"
  shows "draw_bits n_bits forced value obs =
    (Inr (),
     obs\<lparr>tree := (tree obs)\<lparr>heap :=
            (heap (tree obs))[current_node obs :=
               \<lparr>bits = take (i + 1) (bits node),
                values_l = take i (values_l node),
                transition = TDict [(values_l node ! i, length (heap (tree obs))),
                                    (value, length (heap (tree obs)) + 1)]\<rparr>]
            @ [\<lparr>bits = drop (i + 1) (bits node),
                values_l = drop (i + 1) (values_l node),
                transition = transition node\<rparr>,
               TreeNode]\<rparr>,
         current_node := length (heap (tree obs)) + 1,
         index_in_current_node := 0\<rparr>)"
  using assms draw_bits_split [of obs n_bits "value" forced] by simp

theorem draw_bits_diverge_witness:
  "draw_bits 8 False 5
     \<lparr>tree = \<lparr>cap = 8, root = 0,
               heap = [\<lparr>bits = [8, 4], values_l = [3, 1], transition = TStatus VALID\<rparr>]\<rparr>,
      current_node = 0, index_in_current_node = 0\<rparr> =
   (Inr (),
    \<lparr>tree = \<lparr>cap = 8, root = 0,
              heap = [\<lparr>bits = [8], values_l = [], transition = TDict [(3, 1), (5, 2)]\<rparr>,
                      \<lparr>bits = [4], values_l = [1], transition = TStatus VALID\<rparr>,
                      \<lparr>bits = [], values_l = [], transition = TNone\<rparr>]\<rparr>,
     current_node = 2, index_in_current_node = 0\<rparr>)"
  using draw_bits_diverge
    [of "\<lparr>tree = \<lparr>cap = 8, root = 0,
               heap = [\<lparr>bits = [8, 4], values_l = [3, 1], transition = TStatus VALID\<rparr>]\<rparr>,
         current_node = 0, index_in_current_node = 0\<rparr>"
        "\<lparr>bits = [8, 4], values_l = [3, 1], transition = TStatus VALID\<rparr>" 0 8 5 False]
  by (simp add: TreeNode_def)

subsection \<open>Concluding a test run\<close>

text \<open>
  Claim C5. \<^verbatim>\<open>conclude_test\<close> with the status \<open>OVERRUN\<close> returns at once, from every state
  of the observer, and leaves the observer and the whole store as they were: no node
  changes its bit widths, its values or its transition.
\<close>

theorem conclude_test_overrun:
  "conclude_test OVERRUN origin obs = (Inr (), obs)"
  by (simp add: conclude_test_def)

text \<open>
  Claim C6. When \<^verbatim>\<open>conclude_test\<close> is called with a status other than \<open>OVERRUN\<close> while the
  index of the observer is before the end of the values of the current node, or while the
  transition of the current node is a dictionary, it raises \<open>Flaky\<close>, and the observer and
  the store are unchanged.
\<close>

theorem conclude_test_early:
  assumes "status \<noteq> OVERRUN"
    and "index_in_current_node obs < length (values_l (heap (tree obs) ! current_node obs))
         \<or> is_dict (transition (heap (tree obs) ! current_node obs))"
  shows "conclude_test status origin obs = (Inl (Flaky inconsistent_generation), obs)"
  using assms by (simp add: conclude_test_def Let_def)

theorem conclude_test_early_witness:
  "VALID \<noteq> OVERRUN
   \<and> conclude_test VALID None
        \<lparr>tree = \<lparr>cap = 8, root = 0,
                  heap = [\<lparr>bits = [8, 4], values_l = [3, 1], transition = TStatus VALID\<rparr>]\<rparr>,
         current_node = 0, index_in_current_node = 1\<rparr> =
       (Inl (Flaky inconsistent_generation),
        \<lparr>tree = \<lparr>cap = 8, root = 0,
                  heap = [\<lparr>bits = [8, 4], values_l = [3, 1], transition = TStatus VALID\<rparr>]\<rparr>,
         current_node = 0, index_in_current_node = 1\<rparr>)"
  using conclude_test_early
    [of VALID "\<lparr>tree = \<lparr>cap = 8, root = 0,
                  heap = [\<lparr>bits = [8, 4], values_l = [3, 1], transition = TStatus VALID\<rparr>]\<rparr>,
         current_node = 0, index_in_current_node = 1\<rparr>" None]
  by simp

text \<open>
  On a node that records a status, at or past the end of its values, a conclusion with
  another status other than \<open>OVERRUN\<close> ends in \<open>NameError\<close> and changes nothing.
\<close>

lemma conclude_test_other_status:
  assumes "status \<noteq> OVERRUN"
    and "\<not> index_in_current_node obs < length (values_l (heap (tree obs) ! current_node obs))"
    and "transition (heap (tree obs) ! current_node obs) = TStatus s"
    and "s \<noteq> status"
  shows "conclude_test status origin obs = (Inl (NameError ''existing''), obs)"
  using assms by (simp add: conclude_test_def Let_def)

text \<open>
  Claim C2. The claim asks for \<open>Flaky\<close>, with a message naming both statuses, when a test
  run is concluded on a node that already records another status. Here the first run
  draws 3 on 8 bits and 1 on 4 bits and is concluded as \<open>INTERESTING\<close>; the second run
  makes the same draws and is concluded as \<open>INVALID\<close>. The call raises \<open>NameError\<close>: the
  message of line 153 reads the unbound name \<^verbatim>\<open>existing\<close>, so no \<open>Flaky\<close> is built.
\<close>

theorem conclude_test_other_status_name_error:
  "run_test [(8, False, 3), (4, False, 1)] INVALID None
     (tree (snd (run_test [(8, False, 3), (4, False, 1)] INTERESTING (Some ''bug1'') (DataTree 8))))
   = (Inl (NameError ''existing''),
      \<lparr>tree = \<lparr>cap = 8, root = 0,
                heap = [\<lparr>bits = [8, 4], values_l = [3, 1], transition = TStatus INTERESTING\<rparr>]\<rparr>,
       current_node = 0, index_in_current_node = 2\<rparr>)"
  by code_simp

subsection \<open>Drawing after a recorded conclusion\<close>

text \<open>
  In a reachable state a node that records a status has as many bit widths as values.
  A draw at or past the end of its values is therefore past its bit widths too, and the
  assertion of line 105 fails: the handler of lines 123 to 128 is never entered.
\<close>

lemma draw_bits_after_status:
  assumes "reachable obs"
    and "transition (heap (tree obs) ! current_node obs) = TStatus s"
    and "length (values_l (heap (tree obs) ! current_node obs)) \<le> index_in_current_node obs"
  shows "draw_bits n_bits forced v obs =
    (Inl AssertionError, obs\<lparr>index_in_current_node := index_in_current_node obs + 1\<rparr>)"
proof -
  from assms(1) have "node_ok (heap (tree obs) ! current_node obs)"
    by (intro obs_ok_nodeD reachable_obs_ok)
  with assms(2,3) have "\<not> index_in_current_node obs < length (bits (heap (tree obs) ! current_node obs))"
    by (simp add: node_ok_def)
  with assms(2) show ?thesis by (intro draw_bits_past_bits) simp_all
qed

text \<open>
  Claim C7. The claim asks for \<open>Flaky\<close> when a draw is made past the run of a node whose
  transition is a status. Here the first run draws 3 on 8 bits and is concluded as
  \<open>VALID\<close>; the second run draws the same and then draws again. The second draw raises
  \<open>AssertionError\<close>: the assertion of line 105 fails before the handler of lines 123 to 128,
  which would raise \<open>Flaky\<close>, can be reached.
\<close>

theorem draw_bits_after_conclusion_assertion_error:
  "run_draws [(8, False, 3), (4, False, 1)]
     (new_observer (tree (snd (run_test [(8, False, 3)] VALID None (DataTree 8)))))
   = (Inl AssertionError,
      \<lparr>tree = \<lparr>cap = 8, root = 0,
                heap = [\<lparr>bits = [8], values_l = [3], transition = TStatus VALID\<rparr>]\<rparr>,
       current_node = 0, index_in_current_node = 2\<rparr>)"
  by code_simp

subsection \<open>Exhaustion\<close>

text \<open>
  Claim C9. The claim asks \<^verbatim>\<open>is_exhausted\<close> to be true on a tree whose root was concluded
  after no draw at all. On that tree the property returns \<open>False\<close>, as it does on every
  tree: its body is the constant.
\<close>

theorem is_exhausted_concluded_root_false:
  "is_exhausted (tree (snd (run_test [] VALID None (DataTree 8)))) = False
   \<and> heap (tree (snd (run_test [] VALID None (DataTree 8))))
       = [\<lparr>bits = [], values_l = [], transition = TStatus VALID\<rparr>]"
  by code_simp


subsection \<open>Invariants of the reachable states\<close>

lemma split_example_eq:
  "split_example =
     \<lparr>tree = \<lparr>cap = 8, root = 0,
               heap = [\<lparr>bits = [8], values_l = [], transition = TDict [(3, 1), (5, 2)]\<rparr>,
                       \<lparr>bits = [], values_l = [], transition = TStatus VALID\<rparr>,
                       \<lparr>bits = [], values_l = [], transition = TStatus VALID\<rparr>]\<rparr>,
      current_node = 2, index_in_current_node = 0\<rparr>"
  by code_simp

lemma reachable_split_example: "reachable split_example"
  unfolding split_example_def
  by (intro reachable_run_test reachable_new reachable_init)

text \<open>
  Claim C8, as the code has it. In every reachable state every node of the store has at
  least as many bit widths as values and at most one more. A node whose transition is a
  status has as many values as bit widths. A node whose transition is a dictionary has
  exactly one bit width more than values: the last bit width is that of the draw on which
  the dictionary branches, and the value of that draw is the key, not an element of
  \<^verbatim>\<open>values\<close>.
\<close>

theorem reachable_node_lengths:
  assumes "reachable obs" and "a < length (heap (tree obs))"
  shows "length (values_l (heap (tree obs) ! a)) \<le> length (bits (heap (tree obs) ! a))
    \<and> length (bits (heap (tree obs) ! a)) \<le> length (values_l (heap (tree obs) ! a)) + 1
    \<and> ((\<exists>s. transition (heap (tree obs) ! a) = TStatus s) \<longrightarrow>
          length (values_l (heap (tree obs) ! a)) = length (bits (heap (tree obs) ! a)))
    \<and> (is_dict (transition (heap (tree obs) ! a)) \<longrightarrow>
          length (bits (heap (tree obs) ! a)) = length (values_l (heap (tree obs) ! a)) + 1)"
proof -
  from assms have "node_ok (heap (tree obs) ! a)"
    using reachable_obs_ok [of obs] by (simp add: obs_ok_def heap_ok_def)
  then show ?thesis
    by (cases "transition (heap (tree obs) ! a)") (simp_all add: node_ok_def)
qed

theorem reachable_node_lengths_witness:
  "reachable split_example \<and> 0 < length (heap (tree split_example))
   \<and> is_dict (transition (heap (tree split_example) ! 0))
   \<and> length (bits (heap (tree split_example) ! 0)) = length (values_l (heap (tree split_example) ! 0)) + 1"
proof -
  have len: "0 < length (heap (tree split_example))" by (simp add: split_example_eq)
  have dict: "is_dict (transition (heap (tree split_example) ! 0))" by (simp add: split_example_eq)
  from reachable_node_lengths [OF reachable_split_example len] dict
  show ?thesis using reachable_split_example len by blast
qed

text \<open>
  The claim C8 as it is written fails on the tree of the example: the root has a
  dictionary as transition, one bit width and no value.
\<close>

theorem branch_lengths_differ_counterexample:
  "reachable split_example
   \<and> transition (heap (tree split_example) ! 0) = TDict [(3, 1), (5, 2)]
   \<and> length (values_l (heap (tree split_example) ! 0)) = 0
   \<and> length (bits (heap (tree split_example) ! 0)) = 1"
  using reachable_split_example by (simp add: split_example_eq)

text \<open>
  Claim C10. In every reachable state no node of the store has the status \<open>OVERRUN\<close> as
  its transition: a status is stored by \<^verbatim>\<open>conclude_test\<close> alone, which returns before
  storing when the status is \<open>OVERRUN\<close>, and a split copies a transition that was there.
\<close>

theorem reachable_no_overrun:
  assumes "reachable obs" and "a < length (heap (tree obs))"
  shows "transition (heap (tree obs) ! a) \<noteq> TStatus OVERRUN"
proof -
  from assms have "node_ok (heap (tree obs) ! a)"
    using reachable_obs_ok [of obs] by (simp add: obs_ok_def heap_ok_def)
  then show ?thesis by (auto simp: node_ok_def)
qed

theorem reachable_no_overrun_witness:
  "reachable split_example \<and> 1 < length (heap (tree split_example))
   \<and> transition (heap (tree split_example) ! 1) = TStatus VALID
   \<and> transition (heap (tree split_example) ! 1) \<noteq> TStatus OVERRUN"
proof -
  have len: "1 < length (heap (tree split_example))" by (simp add: split_example_eq)
  from reachable_no_overrun [OF reachable_split_example len]
  show ?thesis using reachable_split_example len by (simp add: split_example_eq)
qed

subsection \<open>The shape of the tree is kept\<close>

lemma tree_inv_rootD: "tree_inv tr h \<Longrightarrow> tr 0 = []"
  by (simp add: tree_inv_def)

lemma tree_inv_edgeD:
  "tree_inv tr h \<Longrightarrow> a < length h \<Longrightarrow> transition (h ! a) = TDict d \<Longrightarrow> map_of d k = Some c
   \<Longrightarrow> tr c = tr a @ edge_of (h ! a) k"
  by (simp add: tree_inv_def)

lemma tree_inv_parentD:
  "tree_inv tr h \<Longrightarrow> c < length h \<Longrightarrow> c \<noteq> 0
   \<Longrightarrow> \<exists>a < length h. \<exists>d k. transition (h ! a) = TDict d \<and> map_of d k = Some c"
  by (simp add: tree_inv_def)

lemma tree_inv_init: "tree_inv (\<lambda>a. []) [TreeNode]"
  by (simp add: tree_inv_def TreeNode_def)

text \<open>A node without dictionary is replaced by a node without dictionary.\<close>

lemma tree_inv_leaf_update:
  assumes inv: "tree_inv tr h" and a: "a < length h"
    and old: "\<not> is_dict (transition (h ! a))" and new: "\<not> is_dict (transition n)"
  shows "tree_inv tr (h[a := n])"
  unfolding tree_inv_def
proof (intro conjI allI impI)
  show "tr 0 = []" using inv by (rule tree_inv_rootD)
next
  fix x d k c
  assume x: "x < length (h[a := n])" and d: "transition (h[a := n] ! x) = TDict d"
    and k: "map_of d k = Some c"
  from d new a have "x \<noteq> a" by (cases "x = a") auto
  with x d k inv show "tr c = tr x @ edge_of (h[a := n] ! x) k"
    by (simp add: tree_inv_edgeD)
next
  fix c assume c: "c < length (h[a := n])" "c \<noteq> 0"
  with inv obtain p d k where p: "p < length h" "transition (h ! p) = TDict d" "map_of d k = Some c"
    using tree_inv_parentD [of tr h c] by auto
  with old have "p \<noteq> a" by auto
  with p show "\<exists>p < length (h[a := n]). \<exists>d k. transition (h[a := n] ! p) = TDict d \<and> map_of d k = Some c"
    by (intro exI [of _ p]) auto
qed


lemma edge_of_transition [simp]: "edge_of (n\<lparr>transition := t\<rparr>) k = edge_of n k"
  by (simp add: edge_of_def run_of_def)

lemma heap_ok_refD:
  "heap_ok h \<Longrightarrow> a < length h \<Longrightarrow> transition (h ! a) = TDict d \<Longrightarrow> map_of d k = Some c \<Longrightarrow> c < length h"
  by (auto simp: heap_ok_def refs_below_def)

text \<open>A new child is entered into the dictionary of a node.\<close>

lemma tree_inv_insert:
  assumes inv: "tree_inv tr h" and ok: "heap_ok h" and a: "a < length h"
    and d: "transition (h ! a) = TDict d" and v: "map_of d v = None"
  shows "tree_inv (tr(length h := tr a @ edge_of (h ! a) v))
           (h[a := (h ! a)\<lparr>transition := TDict (AList.update v (length h) d)\<rparr>] @ [TreeNode])"
    (is "tree_inv ?tr ?h")
proof -
  have len: "length ?h = Suc (length h)" by simp
  have at_a: "?h ! a = (h ! a)\<lparr>transition := TDict (AList.update v (length h) d)\<rparr>"
    using a by (simp add: nth_append)
  have at_old: "\<And>x. x < length h \<Longrightarrow> x \<noteq> a \<Longrightarrow> ?h ! x = h ! x"
    by (simp add: nth_append)
  have at_new: "?h ! length h = TreeNode"
    by (simp add: nth_append)
  have tr_old: "\<And>x. x < length h \<Longrightarrow> ?tr x = tr x" by simp
  show ?thesis
    unfolding tree_inv_def
  proof (intro conjI allI impI)
    from a have "0 \<noteq> length h" by auto
    with inv show "?tr 0 = []" by (simp add: tree_inv_rootD)
  next
    fix x d' k c
    assume x: "x < length ?h" and d': "transition (?h ! x) = TDict d'" and k: "map_of d' k = Some c"
    consider "x = length h" | "x = a" | "x < length h" "x \<noteq> a" using x by fastforce
    then show "?tr c = ?tr x @ edge_of (?h ! x) k"
    proof cases
      case 1
      with d' at_new show ?thesis by (simp add: TreeNode_def)
    next
      case 2
      with d' at_a have d'_eq: "d' = AList.update v (length h) d" by simp
      show ?thesis
      proof (cases "k = v")
        case True
        with k d'_eq have "c = length h" by (simp add: update_conv')
        with True 2 a at_a show ?thesis by simp
      next
        case False
        with k d'_eq have kd: "map_of d k = Some c" by (simp add: update_conv')
        with ok a d have "c < length h" by (rule heap_ok_refD)
        moreover from inv a d kd have "tr c = tr a @ edge_of (h ! a) k" by (rule tree_inv_edgeD)
        ultimately show ?thesis using 2 a at_a by simp
      qed
    next
      case 3
      with d' at_old have dx: "transition (h ! x) = TDict d'" by simp
      with ok 3 k have "c < length h" by (auto intro: heap_ok_refD)
      moreover from inv 3(1) dx k have "tr c = tr x @ edge_of (h ! x) k" by (rule tree_inv_edgeD)
      ultimately show ?thesis using 3 at_old by simp
    qed
  next
    fix c assume c: "c < length ?h" and c0: "c \<noteq> 0"
    show "\<exists>p < length ?h. \<exists>d' k. transition (?h ! p) = TDict d' \<and> map_of d' k = Some c"
    proof (cases "c = length h")
      case True
      have "transition (?h ! a) = TDict (AList.update v (length h) d)"
        "map_of (AList.update v (length h) d) v = Some c"
        using at_a True by (simp_all add: update_conv')
      with a show ?thesis by (intro exI [of _ a]) auto
    next
      case False
      with c have "c < length h" by simp
      with inv c0 obtain p dp k where p: "p < length h" "transition (h ! p) = TDict dp" "map_of dp k = Some c"
        using tree_inv_parentD [of tr h c] by auto
      show ?thesis
      proof (cases "p = a")
        case True
        with p d have "dp = d" by simp
        with p v have "k \<noteq> v" by auto
        with p \<open>dp = d\<close> have "map_of (AList.update v (length h) d) k = Some c" by (simp add: update_conv')
        with at_a a show ?thesis by (intro exI [of _ a]) auto
      next
        case False
        with p at_old show ?thesis by (intro exI [of _ p]) auto
      qed
    qed
  qed
qed


lemma zip_take_Suc: "length ys \<le> i \<Longrightarrow> zip (take (Suc i) xs) ys = zip (take i xs) ys"
proof (induction xs arbitrary: ys i)
  case Nil
  then show ?case by simp
next
  case (Cons x xs)
  show ?case
  proof (cases ys)
    case Nil
    then show ?thesis by simp
  next
    case (Cons y ys')
    with Cons.prems obtain j where "i = Suc j" by (cases i) auto
    with Cons.prems Cons.IH [of ys' j] \<open>ys = y # ys'\<close> show ?thesis by simp
  qed
qed

lemma run_of_split_parent:
  "run_of \<lparr>bits = take (Suc i) bs, values_l = take i vs, transition = t\<rparr> = take i (zip bs vs)"
  by (simp add: run_of_def zip_take_Suc take_zip)

lemma edge_of_split_parent:
  assumes "i < length (values_l n)" and "length (values_l n) \<le> length (bits n)"
  shows "edge_of \<lparr>bits = take (Suc i) (bits n), values_l = take i (values_l n), transition = t\<rparr> k
         = take i (run_of n) @ [(bits n ! i, k)]"
  using assms by (simp add: edge_of_def run_of_split_parent) (simp add: run_of_def)

lemma take_Suc_run_of:
  assumes "i < length (values_l n)" and "length (values_l n) \<le> length (bits n)"
  shows "take (Suc i) (run_of n) = take i (run_of n) @ [(bits n ! i, values_l n ! i)]"
  using assms by (simp add: run_of_def take_Suc_conv_app_nth)

lemma edge_of_split_child:
  assumes "i < length (values_l n)" and "length (bits n) = Suc (length (values_l n))"
  shows "take (Suc i) (run_of n)
         @ edge_of \<lparr>bits = drop (Suc i) (bits n), values_l = drop (Suc i) (values_l n), transition = t\<rparr> k
         = edge_of n k"
proof -
  from assms have "Suc (length (values_l n) - Suc 0) = length (values_l n)" by arith
  with assms show ?thesis by (simp add: edge_of_def run_of_def drop_zip [symmetric])
qed


text \<open>A node is split at position \<open>i\<close> and a second, empty child is entered under the value \<open>v\<close>.\<close>

lemma tree_inv_split:
  assumes inv: "tree_inv tr h" and ok: "heap_ok h" and a: "a < length h"
    and i: "i < length (values_l (h ! a))" and v: "v \<noteq> values_l (h ! a) ! i"
  shows "tree_inv
           (tr(length h := tr a @ take (Suc i) (run_of (h ! a)),
               Suc (length h) := tr a @ take i (run_of (h ! a)) @ [(bits (h ! a) ! i, v)]))
           (h[a := \<lparr>bits = take (Suc i) (bits (h ! a)),
                    values_l = take i (values_l (h ! a)),
                    transition = TDict [(values_l (h ! a) ! i, length h), (v, Suc (length h))]\<rparr>]
            @ [\<lparr>bits = drop (Suc i) (bits (h ! a)),
                values_l = drop (Suc i) (values_l (h ! a)),
                transition = transition (h ! a)\<rparr>,
               TreeNode])"
    (is "tree_inv ?tr (h[a := ?N] @ [?C, TreeNode])")
proof -
  let ?h = "h[a := ?N] @ [?C, TreeNode]"
  let ?n = "h ! a"
  let ?L = "length h"
  have nok: "node_ok ?n" using ok a by (simp add: heap_ok_def)
  then have le: "length (values_l ?n) \<le> length (bits ?n)"
    by (auto simp: node_ok_def split: trans.splits)
  have len: "length ?h = Suc (Suc ?L)" by simp
  have a_lt: "a < length ?h" using a by simp
  have at_a: "?h ! a = ?N" using a by (simp add: nth_append)
  have at_old: "\<And>x. x < ?L \<Longrightarrow> x \<noteq> a \<Longrightarrow> ?h ! x = h ! x" by (simp add: nth_append)
  have at_L: "?h ! ?L = ?C" by (simp add: nth_append)
  have at_SL: "?h ! Suc ?L = TreeNode" by (simp add: nth_append)
  have tr_old: "\<And>x. x < ?L \<Longrightarrow> ?tr x = tr x" by simp
  have tr_L: "?tr ?L = tr a @ take (Suc i) (run_of ?n)" by simp
  have tr_SL: "?tr (Suc ?L) = tr a @ take i (run_of ?n) @ [(bits ?n ! i, v)]" by simp
  have edge_N: "\<And>k. edge_of ?N k = take i (run_of ?n) @ [(bits ?n ! i, k)]"
    using i le by (rule edge_of_split_parent)
  have take_Suc: "take (Suc i) (run_of ?n) = take i (run_of ?n) @ [(bits ?n ! i, values_l ?n ! i)]"
    using i le by (rule take_Suc_run_of)
  show ?thesis
    unfolding tree_inv_def
  proof (intro conjI allI impI)
    from a have "0 < ?L" by auto
    with inv show "?tr 0 = []" by (simp add: tree_inv_rootD)
  next
    fix x d' k c
    assume x: "x < length ?h" and d': "transition (?h ! x) = TDict d'" and k: "map_of d' k = Some c"
    consider "x = Suc ?L" | "x = ?L" | "x = a" | "x < ?L" "x \<noteq> a"
      using x len by fastforce
    then show "?tr c = ?tr x @ edge_of (?h ! x) k"
    proof cases
      case 1
      with d' at_SL show ?thesis by (simp add: TreeNode_def)
    next
      case 2
      with d' at_L have dn: "transition ?n = TDict d'" by simp
      from ok a dn k have c: "c < ?L" by (rule heap_ok_refD)
      from nok dn have "length (bits ?n) = Suc (length (values_l ?n))" by (simp add: node_ok_def)
      with i have "take (Suc i) (run_of ?n) @ edge_of ?C k = edge_of ?n k"
        by (rule edge_of_split_child)
      moreover from inv a dn k have "tr c = tr a @ edge_of ?n k" by (rule tree_inv_edgeD)
      ultimately have eq: "tr c = (tr a @ take (Suc i) (run_of ?n)) @ edge_of ?C k" by simp
      from c have e1: "?tr c = tr c" by (rule tr_old)
      from 2 tr_L at_L have e2: "?tr x = tr a @ take (Suc i) (run_of ?n)" "?h ! x = ?C"
        by (simp_all only:)
      show ?thesis unfolding e1 e2 by (rule eq)
    next
      case 3
      with d' at_a have d'_eq: "d' = [(values_l ?n ! i, ?L), (v, Suc ?L)]" by simp
      show ?thesis
      proof (cases "k = values_l ?n ! i")
        case True
        with k d'_eq have "c = ?L" by simp
        with tr_L have e1: "?tr c = tr a @ take (Suc i) (run_of ?n)" by (simp only:)
        have e2: "?tr x = tr a" "?h ! x = ?N" using 3 a at_a by simp_all
        show ?thesis unfolding e1 e2 using True by (simp add: edge_N take_Suc)
      next
        case False
        with k d'_eq have kc: "k = v \<and> c = Suc ?L" by (simp split: if_splits)
        with tr_SL have e1: "?tr c = tr a @ take i (run_of ?n) @ [(bits ?n ! i, v)]" by (simp only:)
        have e2: "?tr x = tr a" "?h ! x = ?N" using 3 a at_a by simp_all
        show ?thesis unfolding e1 e2 using kc by (simp add: edge_N)
      qed
    next
      case 4
      with d' at_old have dx: "transition (h ! x) = TDict d'" by simp
      with ok 4(1) k have "c < ?L" by (auto intro: heap_ok_refD)
      then have e1: "?tr c = tr c" by (rule tr_old)
      from inv 4(1) dx k have eq: "tr c = tr x @ edge_of (h ! x) k" by (rule tree_inv_edgeD)
      from 4(1) have e2: "?tr x = tr x" by (rule tr_old)
      from 4 have e3: "?h ! x = h ! x" by (rule at_old)
      show ?thesis unfolding e1 e2 e3 by (rule eq)
    qed
  next
    fix c assume c: "c < length ?h" and c0: "c \<noteq> 0"
    consider "c = Suc ?L" | "c = ?L" | "c < ?L" using c len by fastforce
    then show "\<exists>p < length ?h. \<exists>d' k. transition (?h ! p) = TDict d' \<and> map_of d' k = Some c"
    proof cases
      case 1
      have "transition (?h ! a) = TDict [(values_l ?n ! i, ?L), (v, Suc ?L)]"
        "map_of [(values_l ?n ! i, ?L), (v, Suc ?L)] v = Some c"
        using at_a 1 v by simp_all
      with a_lt show ?thesis by blast
    next
      case 2
      have "transition (?h ! a) = TDict [(values_l ?n ! i, ?L), (v, Suc ?L)]"
        "map_of [(values_l ?n ! i, ?L), (v, Suc ?L)] (values_l ?n ! i) = Some c"
        using at_a 2 by simp_all
      with a_lt show ?thesis by blast
    next
      case 3
      with inv c0 obtain p dp k where p: "p < ?L" "transition (h ! p) = TDict dp" "map_of dp k = Some c"
        using tree_inv_parentD [of tr h c] by auto
      show ?thesis
      proof (cases "p = a")
        case True
        with p have "transition (?h ! ?L) = TDict dp" unfolding at_L by simp
        moreover have "?L < length ?h" by simp
        ultimately show ?thesis using p(3) by blast
      next
        case False
        with p at_old have "transition (?h ! p) = TDict dp" by simp
        moreover from p(1) have "p < length ?h" by simp
        ultimately show ?thesis using p(3) by blast
      qed
    qed
  qed
qed

subsection \<open>Traces of draws\<close>

lemma recorded_at_kept:
  assumes rec: "recorded_at tr h xs s" and len: "length h \<le> length h'"
    and same: "\<And>a s. a < length h \<Longrightarrow> transition (h ! a) = TStatus s \<Longrightarrow> h' ! a = h ! a \<and> tr' a = tr a"
  shows "recorded_at tr' h' xs s"
proof -
  from rec obtain a where a: "a < length h" "transition (h ! a) = TStatus s" "xs = tr a @ run_of (h ! a)"
    by (auto simp: recorded_at_def)
  from same [OF a(1,2)] a len show ?thesis
    by (auto simp: recorded_at_def intro!: exI [of _ a])
qed

lemma recorded_at_grow:
  assumes rec: "recorded_at tr h xs s" and a: "\<forall>s. transition (h ! a) \<noteq> TStatus s"
    and tr': "\<forall>x < length h. tr' x = tr x"
  shows "recorded_at tr' (h[a := n] @ ns) xs s"
proof -
  from rec obtain b where b: "b < length h" "transition (h ! b) = TStatus s" "xs = tr b @ run_of (h ! b)"
    by (auto simp: recorded_at_def)
  with a have "b \<noteq> a" by auto
  with b tr' have "(h[a := n] @ ns) ! b = h ! b" "tr' b = tr b" "b < length (h[a := n] @ ns)"
    by (simp_all add: nth_append)
  with b show ?thesis unfolding recorded_at_def by (intro exI [of _ b]) simp
qed

lemma run_of_split_child:
  "run_of \<lparr>bits = drop j bs, values_l = drop j vs, transition = t\<rparr> = drop j (zip bs vs)"
  by (simp add: run_of_def drop_zip)

lemma length_run_of: "length (run_of n) = min (length (bits n)) (length (values_l n))"
  by (simp add: run_of_def)

lemma take_run_of_all: "length (values_l n) \<le> i \<Longrightarrow> take i (run_of n) = run_of n"
  by (simp add: run_of_def)

lemma run_of_append:
  "length (bits n) = length (values_l n) \<Longrightarrow>
   run_of (n\<lparr>bits := bits n @ [b], values_l := values_l n @ [v]\<rparr>) = run_of n @ [(b, v)]"
  by (simp add: run_of_def)

lemma draw_bits_trace:
  assumes ok: "obs_ok obs" and inv: "tree_inv tr (heap (tree obs))"
    and step: "draw_bits n_bits forced v obs = (r, obs')"
  shows "\<exists>tr'. tree_inv tr' (heap (tree obs'))
          \<and> (\<forall>xs s. recorded_at tr (heap (tree obs)) xs s \<longrightarrow> recorded_at tr' (heap (tree obs')) xs s)
          \<and> (r = Inr () \<longrightarrow> in_run obs \<longrightarrow>
                in_run obs' \<and> cursor_trace tr' obs' = cursor_trace tr obs @ [(n_bits, v)])"
proof -
  let ?h = "heap (tree obs)"
  let ?a = "current_node obs"
  let ?n = "?h ! ?a"
  let ?i = "index_in_current_node obs"
  let ?L = "length ?h"
  note D = obs_ok_nodeD [OF ok]
  have le: "length (values_l ?n) \<le> length (bits ?n)"
    using D(2) by (auto simp: node_ok_def split: trans.splits)
  from ok show ?thesis
  proof (cases rule: draw_bits_cases [where n_bits = n_bits and val = v])
    case mismatch
    with step have "r = Inl (Flaky inconsistent_generation)" "heap (tree obs') = ?h"
      by (auto simp: draw_bits_mismatch)
    with inv show ?thesis by (intro exI [of _ tr]) simp
  next
    case past_bits
    with step have "r = Inl AssertionError" "heap (tree obs') = ?h"
      by (auto simp: draw_bits_past_bits)
    with inv show ?thesis by (intro exI [of _ tr]) simp
  next
    case same
    with step have obs': "obs' = obs\<lparr>index_in_current_node := Suc ?i\<rparr>"
      by (simp add: draw_bits_same)
    have "take (Suc ?i) (run_of ?n) = take ?i (run_of ?n) @ [(n_bits, v)]"
      using same le by (simp add: take_Suc_run_of)
    with same inv show ?thesis
      by (intro exI [of _ tr]) (simp add: obs' in_run_def cursor_trace_def)
  next
    case split
    let ?N = "\<lparr>bits = take (Suc ?i) (bits ?n), values_l = take ?i (values_l ?n),
               transition = TDict [(values_l ?n ! ?i, ?L), (v, Suc ?L)]\<rparr>"
    let ?C = "\<lparr>bits = drop (Suc ?i) (bits ?n), values_l = drop (Suc ?i) (values_l ?n),
               transition = transition ?n\<rparr>"
    let ?h' = "?h[?a := ?N] @ [?C, TreeNode]"
    let ?tr = "tr(?L := tr ?a @ take (Suc ?i) (run_of ?n),
                  Suc ?L := tr ?a @ take ?i (run_of ?n) @ [(bits ?n ! ?i, v)])"
    from step split D(1) have obs': "obs' = obs\<lparr>tree := (tree obs)\<lparr>heap := ?h'\<rparr>,
        current_node := Suc ?L, index_in_current_node := 0\<rparr>"
      by (simp add: draw_bits_split)
    have inv': "tree_inv ?tr ?h'"
      using inv D(4) D(1) split(3,4) by (rule tree_inv_split)
    have rec: "recorded_at ?tr ?h' xs s" if rec: "recorded_at tr ?h xs s" for xs s
    proof -
      from rec obtain b where b: "b < ?L" "transition (?h ! b) = TStatus s" "xs = tr b @ run_of (?h ! b)"
        by (auto simp: recorded_at_def)
      show ?thesis
      proof (cases "b = ?a")
        case True
        have "?h' ! ?L = ?C" by (simp add: nth_append)
        moreover have "?tr ?L @ run_of ?C = tr ?a @ run_of ?n"
          by (simp add: run_of_split_child) (simp add: run_of_def)
        moreover have "?L < length ?h'" by simp
        ultimately show ?thesis using b True unfolding recorded_at_def
          by (intro exI [of _ ?L]) simp
      next
        case False
        with b have "?h' ! b = ?h ! b" "?tr b = tr b" "b < length ?h'"
          by (simp_all add: nth_append)
        with b show ?thesis unfolding recorded_at_def
          by (intro exI [of _ b]) simp
      qed
    qed
    have "cursor_trace ?tr obs' = cursor_trace tr obs @ [(n_bits, v)]"
      using split D(1) by (simp add: obs' cursor_trace_def)
    moreover have "in_run obs'" by (simp add: obs' in_run_def)
    ultimately show ?thesis using inv' rec
      by (intro exI [of _ ?tr]) (simp add: obs')
  next
    case append
    let ?N = "?n\<lparr>bits := bits ?n @ [n_bits], values_l := values_l ?n @ [v]\<rparr>"
    from step append D(1) have obs': "obs' = obs\<lparr>tree := (tree obs)\<lparr>heap := ?h[?a := ?N]\<rparr>,
        index_in_current_node := Suc ?i\<rparr>"
      by (simp add: draw_bits_append)
    have inv': "tree_inv tr (?h[?a := ?N])"
      using inv D(1) append by (intro tree_inv_leaf_update) simp_all
    have rec: "recorded_at tr (?h[?a := ?N]) xs s" if "recorded_at tr ?h xs s" for xs s
      using recorded_at_grow [OF that, of ?a tr ?N "[]"] append by simp
    have "cursor_trace tr obs' = cursor_trace tr obs @ [(n_bits, v)]"
      using append D(1) by (simp add: obs' cursor_trace_def run_of_append take_run_of_all length_run_of)
    moreover have "in_run obs'" using append D(1) by (simp add: obs' in_run_def)
    ultimately show ?thesis using inv' rec
      by (intro exI [of _ tr]) (simp add: obs')
  next
    case (descend d c)
    with step have obs': "obs' = obs\<lparr>current_node := c, index_in_current_node := 0\<rparr>"
      by (simp add: draw_bits_descend [where d = d and c = c])
    from inv D(1) descend(4,5) have "tr c = tr ?a @ edge_of ?n v" by (rule tree_inv_edgeD)
    then have "cursor_trace tr obs' = cursor_trace tr obs @ [(n_bits, v)]"
      using descend by (simp add: obs' cursor_trace_def edge_of_def take_run_of_all)
    moreover have "in_run obs'" by (simp add: obs' in_run_def)
    ultimately show ?thesis using inv
      by (intro exI [of _ tr]) (simp add: obs')
  next
    case (insert d)
    let ?N = "?n\<lparr>transition := TDict (AList.update v ?L d)\<rparr>"
    let ?h' = "?h[?a := ?N] @ [TreeNode]"
    let ?tr = "tr(?L := tr ?a @ edge_of ?n v)"
    from step insert D(1) have obs': "obs' = obs\<lparr>tree := (tree obs)\<lparr>heap := ?h'\<rparr>,
        current_node := ?L, index_in_current_node := 0\<rparr>"
      by (simp add: draw_bits_insert [where d = d])
    have inv': "tree_inv ?tr ?h'"
      using inv D(4) D(1) insert(4,5) by (rule tree_inv_insert)
    have rec: "recorded_at ?tr ?h' xs s" if "recorded_at tr ?h xs s" for xs s
      using recorded_at_grow [OF that, of ?a ?tr ?N "[TreeNode]"] insert by simp
    have "cursor_trace ?tr obs' = cursor_trace tr obs @ [(n_bits, v)]"
      using insert by (simp add: obs' cursor_trace_def edge_of_def take_run_of_all)
    moreover have "in_run obs'" by (simp add: obs' in_run_def)
    ultimately show ?thesis using inv' rec
      by (intro exI [of _ ?tr]) (simp add: obs')
  qed
qed


lemma node_ok_le: "node_ok n \<Longrightarrow> length (values_l n) \<le> length (bits n)"
  by (cases "transition n") (simp_all add: node_ok_def)

lemma run_draws_append:
  "run_draws (xs @ ys) obs =
     (case run_draws xs obs of (Inl e, obs') \<Rightarrow> (Inl e, obs') | (Inr u, obs') \<Rightarrow> run_draws ys obs')"
  by (induction xs arbitrary: obs) (auto split: prod.splits sum.splits)

lemma drawn_simp [simp]: "drawn (n, f, v) = (n, v)"
  by (simp add: drawn_def)

text \<open>Draws that repeat the run of the current node move the index and nothing else.\<close>

lemma run_draws_within:
  assumes "map drawn ds = drop (index_in_current_node obs) (take m (run_of (heap (tree obs) ! current_node obs)))"
    and "m \<le> length (values_l (heap (tree obs) ! current_node obs))"
    and "length (values_l (heap (tree obs) ! current_node obs)) \<le> length (bits (heap (tree obs) ! current_node obs))"
    and "index_in_current_node obs \<le> m"
  shows "run_draws ds obs = (Inr (), obs\<lparr>index_in_current_node := m\<rparr>)"
  using assms
proof (induction ds arbitrary: obs)
  case Nil
  let ?n = "heap (tree obs) ! current_node obs"
  from Nil.prems(2,3) have "length (take m (run_of ?n)) = m" by (simp add: length_run_of)
  with Nil.prems(1,4) have "index_in_current_node obs = m" by simp
  then show ?case by simp
next
  case (Cons d ds)
  let ?n = "heap (tree obs) ! current_node obs"
  let ?i = "index_in_current_node obs"
  obtain nb f v where d: "d = (nb, f, v)" by (cases d)
  have len: "length (take m (run_of ?n)) = m" using Cons.prems(2,3) by (simp add: length_run_of)
  from Cons.prems(1) have ne: "drop ?i (take m (run_of ?n)) \<noteq> []" by auto
  with len have im: "?i < m" by simp
  with len have "drop ?i (take m (run_of ?n)) = run_of ?n ! ?i # drop (Suc ?i) (take m (run_of ?n))"
    using Cons_nth_drop_Suc [of ?i "take m (run_of ?n)"] by simp
  with Cons.prems(1) d have hd: "run_of ?n ! ?i = (nb, v)"
    and tl: "map drawn ds = drop (Suc ?i) (take m (run_of ?n))" by simp_all
  from im Cons.prems(2,3) have iv: "?i < length (values_l ?n)" and ib: "?i < length (bits ?n)" by simp_all
  from hd iv ib have "bits ?n ! ?i = nb" "values_l ?n ! ?i = v" by (simp_all add: run_of_def)
  with iv ib have step: "draw_bits nb f v obs = (Inr (), obs\<lparr>index_in_current_node := ?i + 1\<rparr>)"
    by (intro draw_bits_same) simp_all
  have "run_draws ds (obs\<lparr>index_in_current_node := ?i + 1\<rparr>)
        = (Inr (), obs\<lparr>index_in_current_node := ?i + 1\<rparr>\<lparr>index_in_current_node := m\<rparr>)"
    using tl Cons.prems(2,3) im by (intro Cons.IH) simp_all
  with step d show ?case by simp
qed

text \<open>
  In a tree-shaped store the draws that lead to a position are replayed from the root
  without an exception and without a change, and end at that position.
\<close>

lemma replay_reaches:
  assumes inv: "tree_inv tr (heap (tree obs))" and ok: "heap_ok (heap (tree obs))"
    and start: "current_node obs = 0" "index_in_current_node obs = 0"
  shows "a < length (heap (tree obs)) \<Longrightarrow> i \<le> length (values_l (heap (tree obs) ! a))
     \<Longrightarrow> map drawn ds = tr a @ take i (run_of (heap (tree obs) ! a))
     \<Longrightarrow> run_draws ds obs = (Inr (), obs\<lparr>current_node := a, index_in_current_node := i\<rparr>)"
proof (induction ds arbitrary: a i rule: length_induct)
  case (1 ds)
  let ?h = "heap (tree obs)"
  have le: "\<And>x. x < length ?h \<Longrightarrow> length (values_l (?h ! x)) \<le> length (bits (?h ! x))"
    using ok by (simp add: heap_ok_def node_ok_le)
  show ?case
  proof (cases "a = 0")
    case True
    with "1.prems" inv have "map drawn ds = drop (index_in_current_node obs) (take i (run_of (?h ! current_node obs)))"
      by (simp add: start tree_inv_rootD)
    then have "run_draws ds obs = (Inr (), obs\<lparr>index_in_current_node := i\<rparr>)"
      using "1.prems" True le [of 0] by (intro run_draws_within) (simp_all add: start)
    moreover have "obs\<lparr>index_in_current_node := i\<rparr> = obs\<lparr>current_node := a, index_in_current_node := i\<rparr>"
      using True start by simp
    ultimately show ?thesis by simp
  next
    case False
    with inv "1.prems"(1) obtain p d k where p: "p < length ?h" "transition (?h ! p) = TDict d" "map_of d k = Some a"
      using tree_inv_parentD [of tr ?h a] by auto
    let ?w = "bits (?h ! p) ! length (values_l (?h ! p))"
    from inv p have tra: "tr a = tr p @ edge_of (?h ! p) k" by (rule tree_inv_edgeD)
    define pre where "pre = tr p @ run_of (?h ! p)"
    define post where "post = (?w, k) # take i (run_of (?h ! a))"
    from tra "1.prems"(3) have "map drawn ds = pre @ post"
      by (simp add: edge_of_def pre_def post_def)
    then obtain ds1 ds' where ds: "ds = ds1 @ ds'" and "map drawn ds1 = pre" and "map drawn ds' = post"
      by (auto simp: map_eq_append_conv)
    then have ds1: "map drawn ds1 = tr p @ run_of (?h ! p)"
      and ds': "map drawn ds' = (?w, k) # take i (run_of (?h ! a))"
      by (simp_all add: pre_def post_def)
    from ds' obtain d0 ds2 where ds'_eq: "ds' = d0 # ds2" and d0: "drawn d0 = (?w, k)"
      and ds2: "map drawn ds2 = take i (run_of (?h ! a))"
      by (auto simp: map_eq_Cons_conv)
    obtain nb f v where d0_eq: "d0 = (nb, f, v)" by (cases d0)
    with d0 have nb: "nb = ?w" and v: "v = k" by simp_all
    let ?obs1 = "obs\<lparr>current_node := p, index_in_current_node := length (values_l (?h ! p))\<rparr>"
    let ?obs2 = "obs\<lparr>current_node := a, index_in_current_node := 0\<rparr>"
    have "length ds1 < length ds" using ds ds'_eq by simp
    moreover have "map drawn ds1 = tr p @ take (length (values_l (?h ! p))) (run_of (?h ! p))"
      using ds1 by (simp add: take_run_of_all)
    ultimately have r1: "run_draws ds1 obs = (Inr (), ?obs1)"
      using "1.IH" p(1) by simp
    have nokp: "node_ok (?h ! p)" using ok p(1) by (simp add: heap_ok_def)
    with p(2) have lenp: "length (bits (?h ! p)) = Suc (length (values_l (?h ! p)))"
      by (simp add: node_ok_def)
    have "draw_bits nb f v ?obs1 = (Inr (), ?obs1\<lparr>current_node := a, index_in_current_node := 0\<rparr>)"
      using p lenp nb v by (intro draw_bits_descend [where d = d]) simp_all
    then have r2: "draw_bits nb f v ?obs1 = (Inr (), ?obs2)" by simp
    have "run_draws ds2 ?obs2 = (Inr (), ?obs2\<lparr>index_in_current_node := i\<rparr>)"
      using ds2 "1.prems"(1,2) le [of a] by (intro run_draws_within) simp_all
    then have r3: "run_draws ds2 ?obs2 = (Inr (), obs\<lparr>current_node := a, index_in_current_node := i\<rparr>)"
      by simp
    show ?thesis
      unfolding ds ds'_eq d0_eq by (simp add: run_draws_append r1 r2 r3)
  qed
qed

lemma conclude_test_trace:
  assumes ok: "obs_ok obs" and inv: "tree_inv tr (heap (tree obs))"
    and step: "conclude_test status origin obs = (r, obs')"
  shows "tree_inv tr (heap (tree obs'))
    \<and> (\<forall>xs s. recorded_at tr (heap (tree obs)) xs s \<longrightarrow> recorded_at tr (heap (tree obs')) xs s)
    \<and> (r = Inr () \<longrightarrow> status \<noteq> OVERRUN \<longrightarrow> in_run obs \<longrightarrow>
          recorded_at tr (heap (tree obs')) (cursor_trace tr obs) status)"
proof -
  let ?h = "heap (tree obs)"
  let ?a = "current_node obs"
  let ?n = "?h ! ?a"
  let ?i = "index_in_current_node obs"
  note D = obs_ok_nodeD [OF ok]
  consider (overrun) "status = OVERRUN"
    | (early) "status \<noteq> OVERRUN" "?i < length (values_l ?n) \<or> is_dict (transition ?n)"
    | (known) s where "status \<noteq> OVERRUN" "\<not> ?i < length (values_l ?n)" "transition ?n = TStatus s"
    | (fresh) "status \<noteq> OVERRUN" "\<not> ?i < length (values_l ?n)" "transition ?n = TNone"
    by (cases "transition ?n") auto
  then show ?thesis
  proof cases
    case overrun
    with step have "obs' = obs" by (simp add: conclude_test_def)
    with inv overrun show ?thesis by simp
  next
    case early
    with step have "obs' = obs" "r = Inl (Flaky inconsistent_generation)"
      by (auto simp: conclude_test_def Let_def)
    with inv show ?thesis by simp
  next
    case (known s)
    with step have obs': "obs' = obs" and r: "r = Inr () \<longrightarrow> s = status"
      by (auto simp: conclude_test_def Let_def split: if_splits)
    have "recorded_at tr ?h (cursor_trace tr obs) status" if "r = Inr ()" "in_run obs"
    proof -
      from that r known have "transition ?n = TStatus status" by simp
      moreover from that known have "cursor_trace tr obs = tr ?a @ run_of ?n"
        by (simp add: cursor_trace_def in_run_def take_run_of_all)
      ultimately show ?thesis using D(1) unfolding recorded_at_def by blast
    qed
    with inv obs' show ?thesis by simp
  next
    case fresh
    let ?N = "?n\<lparr>transition := TStatus status\<rparr>"
    from step fresh have obs': "obs' = obs\<lparr>tree := (tree obs)\<lparr>heap := ?h[?a := ?N]\<rparr>\<rparr>"
      by (simp add: conclude_test_def Let_def set_heap_def)
    have inv': "tree_inv tr (?h[?a := ?N])"
      using inv D(1) fresh by (intro tree_inv_leaf_update) simp_all
    have rec: "recorded_at tr (?h[?a := ?N]) xs s" if "recorded_at tr ?h xs s" for xs s
      using recorded_at_grow [OF that, of ?a tr ?N "[]"] fresh by simp
    have "recorded_at tr (?h[?a := ?N]) (cursor_trace tr obs) status" if "in_run obs"
    proof -
      from that fresh have "cursor_trace tr obs = tr ?a @ run_of ?N"
        by (simp add: cursor_trace_def in_run_def take_run_of_all run_of_def)
      moreover have "(?h[?a := ?N]) ! ?a = ?N" "?a < length (?h[?a := ?N])"
        using D(1) by simp_all
      ultimately show ?thesis unfolding recorded_at_def
        by (intro exI [of _ ?a]) simp
    qed
    with inv' rec show ?thesis by (simp add: obs')
  qed
qed

lemma run_draws_trace:
  assumes "obs_ok obs" and "tree_inv tr (heap (tree obs))" and "in_run obs"
    and "run_draws ds obs = (Inr (), obs')"
  shows "\<exists>tr'. tree_inv tr' (heap (tree obs')) \<and> in_run obs' \<and> obs_ok obs'
           \<and> cursor_trace tr' obs' = cursor_trace tr obs @ map drawn ds"
  using assms
proof (induction ds arbitrary: obs tr)
  case Nil
  then show ?case by auto
next
  case (Cons d ds)
  obtain nb f v where d: "d = (nb, f, v)" by (cases d)
  obtain r obs1 where step: "draw_bits nb f v obs = (r, obs1)" by (cases "draw_bits nb f v obs")
  with Cons.prems(4) d have r: "r = Inr ()" and rest: "run_draws ds obs1 = (Inr (), obs')"
    by (cases r; simp)+
  from draw_bits_trace [OF Cons.prems(1,2) step] r Cons.prems(3)
  obtain tr1 where tr1: "tree_inv tr1 (heap (tree obs1))" "in_run obs1"
    "cursor_trace tr1 obs1 = cursor_trace tr obs @ [(nb, v)]" by blast
  have ok1: "obs_ok obs1" using obs_ok_draw_bits [OF Cons.prems(1), of nb f v] step by simp
  from Cons.IH [OF ok1 tr1(1,2) rest] tr1(3) d show ?case by auto
qed

lemma cursor_trace_new_observer:
  "tree_inv tr (heap t) \<Longrightarrow> root t = 0 \<Longrightarrow> cursor_trace tr (new_observer t) = []"
  by (simp add: cursor_trace_def new_observer_def tree_inv_rootD)

lemma run_test_records:
  assumes ok: "obs_ok (new_observer t)" and inv: "tree_inv tr (heap t)"
    and status: "status \<noteq> OVERRUN"
    and run: "run_test ds status origin t = (Inr (), obs1)"
  shows "recorded (heap (tree obs1)) (map drawn ds) status"
proof -
  obtain r obs' where draws: "run_draws ds (new_observer t) = (r, obs')"
    by (cases "run_draws ds (new_observer t)")
  with run have r: "r = Inr ()" and concl: "conclude_test status origin obs' = (Inr (), obs1)"
    by (cases r; simp add: run_test_def)+
  have root: "root t = 0" using ok by (simp add: obs_ok_def new_observer_def)
  have "tree_inv tr (heap (tree (new_observer t)))" "in_run (new_observer t)"
    using inv by (simp_all add: new_observer_def in_run_def)
  from run_draws_trace [OF ok this] draws r
  obtain tr' where tr': "tree_inv tr' (heap (tree obs'))" "in_run obs'" "obs_ok obs'"
    "cursor_trace tr' obs' = cursor_trace tr (new_observer t) @ map drawn ds" by blast
  with inv root have trace: "cursor_trace tr' obs' = map drawn ds"
    by (simp add: cursor_trace_new_observer)
  from conclude_test_trace [OF tr'(3,1) concl] status tr'(2) trace
  have "tree_inv tr' (heap (tree obs1))" "recorded_at tr' (heap (tree obs1)) (map drawn ds) status"
    by simp_all
  then show ?thesis unfolding recorded_def by blast
qed

lemma recorded_draw_bits:
  assumes "obs_ok obs" and "recorded (heap (tree obs)) xs s"
  shows "recorded (heap (tree (snd (draw_bits n_bits forced v obs)))) xs s"
proof -
  from assms(2) obtain tr where tr: "tree_inv tr (heap (tree obs))" "recorded_at tr (heap (tree obs)) xs s"
    by (auto simp: recorded_def)
  obtain r obs' where step: "draw_bits n_bits forced v obs = (r, obs')"
    by (cases "draw_bits n_bits forced v obs")
  from draw_bits_trace [OF assms(1) tr(1) step] tr(2) step show ?thesis
    unfolding recorded_def by auto
qed

lemma recorded_conclude_test:
  assumes "obs_ok obs" and "recorded (heap (tree obs)) xs s"
  shows "recorded (heap (tree (snd (conclude_test status origin obs)))) xs s"
proof -
  from assms(2) obtain tr where tr: "tree_inv tr (heap (tree obs))" "recorded_at tr (heap (tree obs)) xs s"
    by (auto simp: recorded_def)
  obtain r obs' where step: "conclude_test status origin obs = (r, obs')"
    by (cases "conclude_test status origin obs")
  from conclude_test_trace [OF assms(1) tr(1) step] tr(2) step show ?thesis
    unfolding recorded_def by auto
qed

lemma evolves_keeps:
  assumes "evolves obs1 obs2" and "obs_ok obs1"
  shows "obs_ok obs2 \<and> (recorded (heap (tree obs1)) xs s \<longrightarrow> recorded (heap (tree obs2)) xs s)"
  using assms
proof (induction rule: evolves.induct)
  case (evolves_refl obs)
  then show ?case by simp
next
  case (evolves_new obs obs')
  then have "obs_ok (new_observer (tree obs'))" by (intro obs_ok_new) simp
  moreover have "heap (tree (new_observer (tree obs'))) = heap (tree obs')"
    by (simp add: new_observer_def)
  ultimately show ?case using evolves_new by simp
next
  case (evolves_draw obs obs' n_bits forced v)
  then show ?case by (simp add: obs_ok_draw_bits recorded_draw_bits)
next
  case (evolves_conclude obs obs' status origin)
  then show ?case by (simp add: obs_ok_conclude_test recorded_conclude_test)
qed

lemma reachable_tree_inv: "reachable obs \<Longrightarrow> \<exists>tr. tree_inv tr (heap (tree obs))"
proof (induction rule: reachable.induct)
  case (reachable_init c)
  show ?case using tree_inv_init by (auto simp: new_observer_def DataTree_def)
next
  case (reachable_new obs)
  then show ?case by (simp add: new_observer_def)
next
  case (reachable_draw obs n_bits forced v)
  then obtain tr where tr: "tree_inv tr (heap (tree obs))" by blast
  obtain r obs' where step: "draw_bits n_bits forced v obs = (r, obs')"
    by (cases "draw_bits n_bits forced v obs")
  from draw_bits_trace [OF reachable_obs_ok [OF reachable_draw.hyps] tr step] step
  show ?case by auto
next
  case (reachable_conclude obs status origin)
  then obtain tr where tr: "tree_inv tr (heap (tree obs))" by blast
  obtain r obs' where step: "conclude_test status origin obs = (r, obs')"
    by (cases "conclude_test status origin obs")
  from conclude_test_trace [OF reachable_obs_ok [OF reachable_conclude.hyps] tr step] step
  show ?case by auto
qed

lemma recorded_replay:
  assumes ok: "obs_ok (new_observer t)" and rec: "recorded (heap t) (map drawn ds) status"
    and status: "status \<noteq> OVERRUN"
  shows "\<exists>a i. run_test ds status origin t
           = (Inr (), (new_observer t)\<lparr>current_node := a, index_in_current_node := i\<rparr>)"
proof -
  let ?obs = "new_observer t"
  from rec obtain tr a where inv: "tree_inv tr (heap t)" and a: "a < length (heap t)"
    and st: "transition (heap t ! a) = TStatus status"
    and tr: "map drawn ds = tr a @ run_of (heap t ! a)"
    by (auto simp: recorded_def recorded_at_def)
  let ?i = "length (values_l (heap t ! a))"
  let ?end = "?obs\<lparr>current_node := a, index_in_current_node := ?i\<rparr>"
  have h: "heap (tree ?obs) = heap t" by (simp add: new_observer_def)
  have start: "current_node ?obs = 0" "index_in_current_node ?obs = 0"
    using ok by (simp_all add: obs_ok_def new_observer_def)
  have "run_draws ds ?obs = (Inr (), ?end)"
  proof (rule replay_reaches)
    show "tree_inv tr (heap (tree ?obs))" using inv h by simp
    show "heap_ok (heap (tree ?obs))" using ok by (simp add: obs_ok_def)
    show "current_node ?obs = 0" "index_in_current_node ?obs = 0" by (fact start)+
    show "a < length (heap (tree ?obs))" using a h by simp
    show "?i \<le> length (values_l (heap (tree ?obs) ! a))" using h by simp
    show "map drawn ds = tr a @ take ?i (run_of (heap (tree ?obs) ! a))"
      using tr h by (simp add: take_run_of_all)
  qed
  moreover have "conclude_test status origin ?end = (Inr (), ?end)"
    using status st by (simp add: conclude_test_def Let_def new_observer_def)
  ultimately have "run_test ds status origin t = (Inr (), ?end)"
    by (simp add: run_test_def)
  then show ?thesis by blast
qed

lemma evolves_run_draws: "evolves obs obs' \<Longrightarrow> evolves obs (snd (run_draws ds obs'))"
proof (induction ds arbitrary: obs')
  case Nil
  then show ?case by simp
next
  case (Cons d ds)
  obtain n f v where d: "d = (n, f, v)" by (cases d)
  obtain r obs1 where step: "draw_bits n f v obs' = (r, obs1)" by (cases "draw_bits n f v obs'")
  from evolves_draw [OF Cons.prems, of n f v] step have "evolves obs obs1" by simp
  with Cons.IH [of obs1] step d show ?case by (cases r) simp_all
qed

lemma evolves_run_test: "evolves obs obs' \<Longrightarrow> evolves obs (snd (run_test ds status origin (tree obs')))"
proof -
  assume "evolves obs obs'"
  then have start: "evolves obs (new_observer (tree obs'))" by (rule evolves_new)
  obtain r obs1 where run: "run_draws ds (new_observer (tree obs')) = (r, obs1)"
    by (cases "run_draws ds (new_observer (tree obs'))")
  from evolves_run_draws [OF start, of ds] run have obs1: "evolves obs obs1" by simp
  from evolves_conclude [OF obs1, of status origin] run obs1 show ?thesis
    by (cases r) (simp_all add: run_test_def)
qed

subsection \<open>Replaying a recorded run\<close>

text \<open>
  Claim C1. Take any reachable state and a test run on its tree, made of any draws and
  concluded with a status other than \<open>OVERRUN\<close>, that raises nothing: the run is then
  recorded in the tree. After that the tree may be used further in any way (other runs,
  also runs that raise, or none at all). A new observer that is then fed the same draws
  and concluded with the same status raises nothing, and the tree after this run is the
  tree before it: no node has changed and no node has been allocated.
\<close>

theorem replay_recorded_run:
  assumes "reachable obs0" and "status \<noteq> OVERRUN"
    and "run_test ds status origin (tree obs0) = (Inr (), obs1)"
    and "evolves obs1 obs2"
  shows "\<exists>obs3. run_test ds status origin (tree obs2) = (Inr (), obs3) \<and> tree obs3 = tree obs2"
proof -
  have ok0: "obs_ok (new_observer (tree obs0))"
    using assms(1) by (intro obs_ok_new reachable_obs_ok)
  from reachable_tree_inv [OF assms(1)] obtain tr where inv0: "tree_inv tr (heap (tree obs0))" ..
  from ok0 inv0 assms(2,3) have rec1: "recorded (heap (tree obs1)) (map drawn ds) status"
    by (rule run_test_records)
  have "reachable obs1"
    using reachable_run_test [OF reachable_new [OF assms(1)], of ds status origin] assms(3) by simp
  then have "obs_ok obs1" by (rule reachable_obs_ok)
  with assms(4) rec1 have ok2: "obs_ok obs2" and rec2: "recorded (heap (tree obs2)) (map drawn ds) status"
    using evolves_keeps [of obs1 obs2] by blast+
  from ok2 have "obs_ok (new_observer (tree obs2))" by (rule obs_ok_new)
  from recorded_replay [OF this rec2 assms(2), of origin] show ?thesis
    by (auto simp: new_observer_def)
qed

lemma recorded_example_run:
  "run_test [(8, False, 3), (4, False, 1)] VALID None (tree (new_observer (DataTree 8)))
   = (Inr (), recorded_example)"
  by code_simp

lemma later_example_eq:
  "later_example =
     \<lparr>tree = \<lparr>cap = 8, root = 0,
               heap = [\<lparr>bits = [8], values_l = [], transition = TDict [(3, 1), (5, 2)]\<rparr>,
                       \<lparr>bits = [4], values_l = [1], transition = TStatus VALID\<rparr>,
                       \<lparr>bits = [], values_l = [], transition = TStatus INVALID\<rparr>]\<rparr>,
      current_node = 2, index_in_current_node = 0\<rparr>"
  by code_simp

lemma evolves_later_example: "evolves recorded_example later_example"
  unfolding later_example_def by (intro evolves_run_test evolves_refl)

theorem replay_recorded_run_witness:
  "reachable (new_observer (DataTree 8)) \<and> VALID \<noteq> OVERRUN
   \<and> run_test [(8, False, 3), (4, False, 1)] VALID None (tree (new_observer (DataTree 8)))
       = (Inr (), recorded_example)
   \<and> evolves recorded_example later_example
   \<and> (\<exists>obs3. run_test [(8, False, 3), (4, False, 1)] VALID None (tree later_example) = (Inr (), obs3)
         \<and> tree obs3 = tree later_example)"
proof -
  have r: "reachable (new_observer (DataTree 8))" by (rule reachable_init)
  have s: "VALID \<noteq> OVERRUN" by simp
  from replay_recorded_run [OF r s recorded_example_run evolves_later_example]
  show ?thesis using r recorded_example_run evolves_later_example by simp
qed

end
